theory Spec2Isabelle
  imports Main "HOL-Library.Word"
begin

unbundle bit_operations_syntax

section \<open>Bytes and errors\<close>

text \<open>
  A C++ \<open>char\<close> is an Isabelle \<open>char\<close> (one byte). The library is built for x86-64,
  where \<open>char\<close> is signed: \<open>char_val\<close> is the two's complement value that the
  comparisons of the source see. \<open>std::string\<close> is \<open>string\<close>.
\<close>

definition char_val :: "char \<Rightarrow> int" where
  "char_val c = (let n = int (of_char c) in if n < 128 then n else n - 256)"

text \<open>
  The three exception classes the code throws or catches:
  \<open>Parse_Context::Exception\<close> (raised by \<open>context.exception\<close>, with the cursor offset),
  \<open>ML::Exception\<close> and \<open>std::out_of_range\<close>. All three derive from \<open>std::exception\<close>.
\<close>

datatype error =
    Parse_Error nat string
  | Exception string
  | Out_Of_Range string

fun is_out_of_range :: "error \<Rightarrow> bool" where
  "is_out_of_range (Out_Of_Range _) = True"
| "is_out_of_range _ = False"

section \<open>Parse_Context\<close>

text \<open>
  Modelled from the spec: \<open>parse_context.h\<close> (the class \<open>Parse_Context\<close>, its
  \<open>Revert_Token\<close> and its exception) is not among the source files. Section 4.1 of the
  specification describes the cursor: a read-only byte sequence and a current offset,
  with operations that peek, advance, match or expect a literal, and report the end of
  input. Section 4.4 gives the whitespace that the skipping loop consumes.
\<close>

record parse_context =
  input :: string
  ofs :: nat

definition eof :: "parse_context \<Rightarrow> bool" where
  \<comment> \<open>Modelled from the spec: \<open>Parse_Context::eof\<close> (\<open>atEnd\<close>) reports exhaustion.\<close>
  "eof ctx = (length (input ctx) \<le> ofs ctx)"

definition exception :: "parse_context \<Rightarrow> string \<Rightarrow> error" where
  \<comment> \<open>Modelled from the spec: \<open>Parse_Context::exception\<close> raises a parse error carrying
      the current offset and the message.\<close>
  "exception ctx msg = Parse_Error (ofs ctx) msg"

definition advance :: "nat \<Rightarrow> parse_context \<Rightarrow> parse_context" where
  \<comment> \<open>Modelled from the spec: consuming \<open>n\<close> bytes moves the offset forward by \<open>n\<close>.\<close>
  "advance n ctx = ctx\<lparr>ofs := ofs ctx + n\<rparr>"

definition peek :: "parse_context \<Rightarrow> error + char" where
  \<comment> \<open>Modelled from the spec: \<open>*context\<close> returns the current byte without consuming it,
      and is an error at end of input.\<close>
  "peek ctx = (if eof ctx then Inl (exception ctx ''unexpected EOF'')
               else Inr (input ctx ! ofs ctx))"

definition next_char :: "parse_context \<Rightarrow> error + (char \<times> parse_context)" where
  \<comment> \<open>Modelled from the spec: \<open>*context++\<close> returns and consumes one byte.\<close>
  "next_char ctx = (case peek ctx of Inl e \<Rightarrow> Inl e | Inr c \<Rightarrow> Inr (c, advance 1 ctx))"

definition match_literal :: "string \<Rightarrow> parse_context \<Rightarrow> bool \<times> parse_context" where
  \<comment> \<open>Modelled from the spec: \<open>match_literal\<close> consumes and returns true iff the upcoming
      bytes equal the literal, otherwise consumes nothing and returns false.\<close>
  "match_literal s ctx =
     (if take (length s) (drop (ofs ctx) (input ctx)) = s
      then (True, advance (length s) ctx) else (False, ctx))"

definition expect_literal :: "string \<Rightarrow> parse_context \<Rightarrow> error + parse_context" where
  \<comment> \<open>Modelled from the spec: \<open>expect_literal\<close> consumes on match, otherwise raises a
      parse error carrying the current offset.\<close>
  "expect_literal s ctx =
     (case match_literal s ctx of
        (True, ctx') \<Rightarrow> Inr ctx'
      | (False, _) \<Rightarrow> Inl (exception ctx (''expected literal '' @ s)))"

definition match_whitespace :: "parse_context \<Rightarrow> bool \<times> parse_context" where
  \<comment> \<open>Modelled from the spec: \<open>Parse_Context::match_whitespace\<close>; of the space, tab, CR
      and LF that the whitespace loop consumes, space and tab are taken here, one byte
      per call.\<close>
  "match_whitespace ctx =
     (if \<not> eof ctx \<and> (input ctx ! ofs ctx = CHR '' '' \<or> input ctx ! ofs ctx = CHR 0x09)
      then (True, advance 1 ctx) else (False, ctx))"

definition match_eol :: "parse_context \<Rightarrow> bool \<times> parse_context" where
  \<comment> \<open>Modelled from the spec: \<open>Parse_Context::match_eol\<close>; of the space, tab, CR and LF
      that the whitespace loop consumes, CR and LF are taken here, one byte per call.\<close>
  "match_eol ctx =
     (if \<not> eof ctx \<and> (input ctx ! ofs ctx = CHR 0x0A \<or> input ctx ! ofs ctx = CHR 0x0D)
      then (True, advance 1 ctx) else (False, ctx))"

definition remaining :: "parse_context \<Rightarrow> nat" where
  \<comment> \<open>the number of bytes not yet consumed; the measure of the loops below\<close>
  "remaining ctx = length (input ctx) - ofs ctx"

section \<open>json_parsing.cc: whitespace\<close>

function skip_loop :: "parse_context \<Rightarrow> parse_context" where
  "skip_loop ctx =
     (if eof ctx then ctx
      else (case match_whitespace ctx of
              (True, ctx1) \<Rightarrow> skip_loop ctx1
            | (False, ctx1) \<Rightarrow>
                (case match_eol ctx1 of
                   (True, ctx2) \<Rightarrow> skip_loop ctx2
                 | (False, ctx2) \<Rightarrow> ctx2)))"
  by pat_completeness auto
termination
  by (relation "measure remaining")
     (auto simp: remaining_def match_whitespace_def match_eol_def eof_def advance_def
           split: if_splits)

declare skip_loop.simps [simp del]

definition skipJsonWhitespace :: "parse_context \<Rightarrow> parse_context" where
  "skipJsonWhitespace ctx =
     (if \<not> eof ctx then
        (let c = input ctx ! ofs ctx in
         if char_val c > char_val CHR '' '' then ctx
         else if c \<noteq> CHR '' '' \<and> c \<noteq> CHR 0x09 \<and> c \<noteq> CHR 0x0A \<and> c \<noteq> CHR 0x0D then ctx
         else skip_loop ctx)
      else skip_loop ctx)"

section \<open>json_parsing.cc: escaping\<close>

text \<open>
  \<open>jsonEscapeCore\<close> writes through the pointer \<open>p\<close> into the caller's array: the array is
  a list, \<open>p\<close> and \<open>end\<close> are indices into it. The result is the new \<open>p\<close> (\<open>None\<close> for the
  null pointer) with the array as written, or the exception thrown; the array is local
  to the callers, so a throw leaves nothing of it behind, and the backslash of an escape
  is written here together with the byte after it.
\<close>

definition escape_switch :: "char \<Rightarrow> char option" where
  "escape_switch c =
     (if c = CHR 0x09 then Some CHR ''t''
      else if c = CHR 0x0A then Some CHR ''n''
      else if c = CHR 0x0D then Some CHR ''r''
      else if c = CHR 0x0C then Some CHR ''f''
      else if c = CHR 0x08 then Some CHR ''b''
      else if c = CHR ''/'' \<or> c = CHR 0x5C \<or> c = CHR 0x22 then Some c
      else None)"

definition passes_through :: "char \<Rightarrow> bool" where
  \<comment> \<open>the guard \<open>c >= ' ' && c < 127 && c != '"' && c != '\\'\<close>\<close>
  "passes_through c =
     (char_val c \<ge> char_val CHR '' '' \<and> char_val c < 127 \<and> c \<noteq> CHR 0x22 \<and> c \<noteq> CHR 0x5C)"

fun jsonEscapeCore :: "string \<Rightarrow> nat \<Rightarrow> nat \<Rightarrow> char list \<Rightarrow> error + (nat option \<times> char list)" where
  "jsonEscapeCore [] p end buf = Inr (Some p, buf)"
| "jsonEscapeCore (c # str) p end buf =
     (if p + 4 \<ge> end then Inr (None, buf)
      else if passes_through c then jsonEscapeCore str (p + 1) end (buf[p := c])
      else (case escape_switch c of
              Some d \<Rightarrow> jsonEscapeCore str (p + 2) end (buf[p := CHR 0x5C, p + 1 := d])
            | None \<Rightarrow> Inl (Exception ''invalid character in Json string'')))"

definition jsonEscape :: "string \<Rightarrow> error + string" where
  "jsonEscape str =
     (let sz = length str * 4 + 4 in
      case jsonEscapeCore str 0 sz (replicate sz CHR 0x00) of
        Inl e \<Rightarrow> Inl e
      | Inr (None, buf) \<Rightarrow> Inl (Exception ''To fix: logic error in JSON escaping'')
      | Inr (Some p, buf) \<Rightarrow> Inr (take p buf))"

section \<open>buffers.h\<close>

text \<open>
  \<open>buffer\<close> holds the pointer \<open>used\<close>, the capacity \<open>size\<close> (here \<open>bsize\<close>) and the
  write position \<open>pos\<close>. In a \<open>growing_buffer\<close> the pointer aims at the inline array
  or at the heap block owned by \<open>alloc\<close>, so \<open>used\<close> is a tag naming one of the two and
  \<open>cells\<close> is the array it aims at. In an \<open>external_buffer\<close> it aims at the caller's
  array, which \<open>used\<close> then holds. Memory that was never written is indeterminate in
  C++; it is filled with NUL here and no operation reads it.
\<close>

datatype storage = Internal | Alloc

record 'p buffer =
  used :: 'p
  bsize :: nat
  pos :: nat

record growing_buffer = "storage buffer" +
  internal :: "char list"
  alloc :: "char list option"

type_synonym external_buffer = "char list buffer"

definition cells :: "growing_buffer \<Rightarrow> char list" where
  "cells b = (case used b of
                Internal \<Rightarrow> internal b
              | Alloc \<Rightarrow> (case alloc b of Some a \<Rightarrow> a | None \<Rightarrow> []))"

definition growing_buffer_new :: growing_buffer where
  "growing_buffer_new =
     \<lparr>used = Internal, bsize = 4096, pos = 0,
      internal = replicate 4096 CHR 0x00, alloc = None\<rparr>"

definition store :: "char \<Rightarrow> growing_buffer \<Rightarrow> growing_buffer" where
  \<comment> \<open>\<open>used[pos++] = c\<close>\<close>
  "store c b =
     (case used b of
        Internal \<Rightarrow> b\<lparr>internal := (internal b)[pos b := c], pos := pos b + 1\<rparr>
      | Alloc \<Rightarrow> b\<lparr>alloc := map_option (\<lambda>a. a[pos b := c]) (alloc b), pos := pos b + 1\<rparr>)"

definition growing_push_back :: "char \<Rightarrow> growing_buffer \<Rightarrow> growing_buffer" where
  "growing_push_back c b =
     (if pos b = bsize b then
        (let newSize = bsize b * 8;
             newBuffer = take (bsize b) (cells b) @ replicate (newSize - bsize b) CHR 0x00
         in store c (b\<lparr>alloc := Some newBuffer, used := Alloc, bsize := newSize\<rparr>))
      else store c b)"

definition to_string :: "growing_buffer \<Rightarrow> string" where
  \<comment> \<open>\<open>operator std::string\<close>: the bytes \<open>used .. used + pos\<close>\<close>
  "to_string b = take (pos b) (cells b)"

definition external_buffer_new :: "char list \<Rightarrow> nat \<Rightarrow> external_buffer" where
  "external_buffer_new external sz = \<lparr>used = external, bsize = sz, pos = 0\<rparr>"

text \<open>
  \<open>external_buffer::push_back\<close> returns the buffer as the call leaves it together with
  the exception, if one was thrown.
\<close>

definition external_push_back :: "char \<Rightarrow> external_buffer \<Rightarrow> error option \<times> external_buffer" where
  "external_push_back c b =
     (if pos b = bsize b then (Some (Out_Of_Range ''external_buffer::push_back''), b)
      else (None, b\<lparr>used := (used b)[pos b := c], pos := pos b + 1\<rparr>))"

definition to_string_ext :: "external_buffer \<Rightarrow> string" where
  "to_string_ext b = take (pos b) (used b)"

section \<open>json_parsing.h: strings\<close>

definition fromHex :: "char \<Rightarrow> parse_context \<Rightarrow> error + 8 word" where
  "fromHex hex ctx =
     (if char_val hex \<ge> char_val CHR ''0'' \<and> char_val hex \<le> char_val CHR ''9''
        then Inr (word_of_int (char_val hex - char_val CHR ''0''))
      else if char_val hex \<ge> char_val CHR ''a'' \<and> char_val hex \<le> char_val CHR ''f''
        then Inr (word_of_int (char_val hex - char_val CHR ''a'' + 10))
      else if char_val hex \<ge> char_val CHR ''A'' \<and> char_val hex \<le> char_val CHR ''F''
        then Inr (word_of_int (char_val hex - char_val CHR ''A'' + 10))
      else Inl (exception ctx (''invalid hexadecimal: '' @ [hex])))"

text \<open>
  \<open>fromHex<T>\<close> at \<open>T = uint16_t\<close>: the loop runs \<open>2 * sizeof(T) = 4\<close> times; the first
  argument counts the iterations left. The digit is read with \<open>*context++\<close> before
  \<open>fromHex\<close> is entered, so an invalid digit is reported at the offset after it.
\<close>

fun fromHex_loop :: "nat \<Rightarrow> 16 word \<Rightarrow> parse_context \<Rightarrow> (error + 16 word) \<times> parse_context" where
  "fromHex_loop 0 code ctx = (Inr code, ctx)"
| "fromHex_loop (Suc n) code ctx =
     (case next_char ctx of
        Inl e \<Rightarrow> (Inl e, ctx)
      | Inr (hex, ctx1) \<Rightarrow>
          (case fromHex hex ctx1 of
             Inl e \<Rightarrow> (Inl e, ctx1)
           | Inr d \<Rightarrow> fromHex_loop n (push_bit 4 code OR ucast d) ctx1))"

definition fromHex16 :: "parse_context \<Rightarrow> (error + 16 word) \<times> parse_context" where
  "fromHex16 ctx = fromHex_loop 4 0 ctx"

text \<open>
  The two callbacks of \<open>readJsonString\<close> capture the parse context by reference (they
  call \<open>context.exception\<close>) and update the state they captured: a callback takes the
  context as it stands at the call, the byte or code unit, and its state, and returns
  the exception it threw, if any, with the state as it leaves it.

  A scanning function returns the same way: the exception, if any, with the callback
  state and the parse context as they stand when it returns or throws.
\<close>

type_synonym ('a, 's) callback = "parse_context \<Rightarrow> 'a \<Rightarrow> 's \<Rightarrow> error option \<times> 's"

type_synonym 's outcome = "error option \<times> 's \<times> parse_context"

definition read_escape ::
  "(char, 's) callback \<Rightarrow> (16 word, 's) callback \<Rightarrow> char \<Rightarrow> parse_context \<Rightarrow> 's \<Rightarrow> 's outcome" where
  \<comment> \<open>the \<open>switch\<close> on the byte after a backslash\<close>
  "read_escape push_back_byte push_back_utf16 c ctx st =
     (let byte = (\<lambda>b. case push_back_byte ctx b st of (r, st') \<Rightarrow> (r, st', ctx)) in
      if c = CHR ''t'' then byte CHR 0x09
      else if c = CHR ''n'' then byte CHR 0x0A
      else if c = CHR ''r'' then byte CHR 0x0D
      else if c = CHR ''f'' then byte CHR 0x0C
      else if c = CHR ''b'' then byte CHR 0x08
      else if c = CHR ''/'' then byte CHR ''/''
      else if c = CHR 0x5C then byte CHR 0x5C
      else if c = CHR 0x22 then byte CHR 0x22
      else if c = CHR ''u'' then
        (case fromHex16 ctx of
           (Inl e, ctx') \<Rightarrow> (Some e, st, ctx')
         | (Inr code, ctx') \<Rightarrow>
             (case push_back_utf16 ctx' code st of (r, st') \<Rightarrow> (r, st', ctx')))
      else (Some (exception ctx (''invalid escape sequence: '' @ [CHR 0x5C, c])), st, ctx))"

definition read_item ::
  "(char, 's) callback \<Rightarrow> (16 word, 's) callback \<Rightarrow> parse_context \<Rightarrow> 's \<Rightarrow> 's outcome" where
  \<comment> \<open>one pass through the body of the \<open>while\<close> loop\<close>
  "read_item push_back_byte push_back_utf16 ctx st =
     (case next_char ctx of
        Inl e \<Rightarrow> (Some e, st, ctx)
      | Inr (c, ctx1) \<Rightarrow>
          if c \<noteq> CHR 0x5C then
            (case push_back_byte ctx1 c st of (r, st') \<Rightarrow> (r, st', ctx1))
          else
            (case next_char ctx1 of
               Inl e \<Rightarrow> (Some e, st, ctx1)
             | Inr (c', ctx2) \<Rightarrow> read_escape push_back_byte push_back_utf16 c' ctx2 st))"

lemma next_char_remaining:
  "next_char ctx = Inr (c, ctx') \<Longrightarrow> remaining ctx' < remaining ctx"
  by (auto simp: next_char_def peek_def eof_def advance_def remaining_def split: if_splits)

lemma fromHex_loop_remaining:
  "fromHex_loop n code ctx = (r, ctx') \<Longrightarrow> remaining ctx' \<le> remaining ctx"
proof (induction n arbitrary: code ctx)
  case 0
  then show ?case by simp
next
  case (Suc n)
  then show ?case
    by (fastforce split: sum.splits dest: next_char_remaining)
qed

lemma read_escape_remaining:
  "read_escape pb pu c ctx st = (r, st', ctx') \<Longrightarrow> remaining ctx' \<le> remaining ctx"
  by (auto simp: read_escape_def fromHex16_def Let_def split: if_splits sum.splits prod.splits
           dest: fromHex_loop_remaining)

lemma read_item_remaining:
  "read_item pb pu ctx st = (None, st', ctx') \<Longrightarrow> remaining ctx' < remaining ctx"
  by (fastforce simp: read_item_def split: sum.splits if_splits prod.splits
           dest: next_char_remaining read_escape_remaining)

function readJsonString_loop ::
  "(char, 's) callback \<Rightarrow> (16 word, 's) callback \<Rightarrow> parse_context \<Rightarrow> 's \<Rightarrow> 's outcome" where
  "readJsonString_loop push_back_byte push_back_utf16 ctx st =
     (case match_literal [CHR 0x22] ctx of
        (True, ctx') \<Rightarrow> (None, st, ctx')
      | (False, _) \<Rightarrow>
          (case read_item push_back_byte push_back_utf16 ctx st of
             (Some e, st', ctx') \<Rightarrow> (Some e, st', ctx')
           | (None, st', ctx') \<Rightarrow> readJsonString_loop push_back_byte push_back_utf16 ctx' st'))"
  by pat_completeness auto
termination
  by (relation "measure (\<lambda>(pb, pu, ctx, st). remaining ctx)")
     (auto dest: read_item_remaining [OF sym])

declare readJsonString_loop.simps [simp del]

definition readJsonString ::
  "parse_context \<Rightarrow> (char, 's) callback \<Rightarrow> (16 word, 's) callback \<Rightarrow> 's \<Rightarrow> 's outcome" where
  "readJsonString context push_back_byte push_back_utf16 st =
     (let ctx0 = skipJsonWhitespace context in
      case expect_literal [CHR 0x22] ctx0 of
        Inl e \<Rightarrow> (Some e, st, ctx0)
      | Inr ctx \<Rightarrow> readJsonString_loop push_back_byte push_back_utf16 ctx st)"

section \<open>json_parsing.cc: ASCII strings\<close>

text \<open>
  The lambdas take a \<open>uint16_t\<close>. A \<open>char\<close> passed to one is converted by value (a
  negative \<open>char\<close> wraps to a code unit above 127); a \<open>uint16_t\<close> passed to
  \<open>push_back(char)\<close> keeps its low eight bits.
\<close>

definition char_to_u16 :: "char \<Rightarrow> 16 word" where
  "char_to_u16 c = word_of_int (char_val c)"

definition u16_to_char :: "16 word \<Rightarrow> char" where
  "u16_to_char w = char_of (unat w)"

definition readJsonStringAscii :: "parse_context \<Rightarrow> (16 word, 's) callback \<Rightarrow> 's \<Rightarrow> 's outcome" where
  "readJsonStringAscii context push_back st =
     readJsonString context (\<lambda>ctx c. push_back ctx (char_to_u16 c)) push_back st"

definition ascii_push_back :: "(16 word, growing_buffer) callback" where
  \<comment> \<open>the lambda of \<open>expectJsonStringAscii(context)\<close>\<close>
  "ascii_push_back ctx c result =
     (if c > 127 then (Some (exception ctx ''non-ASCII string character''), result)
      else (None, growing_push_back (u16_to_char c) result))"

definition expectJsonStringAscii :: "parse_context \<Rightarrow> (error + string) \<times> parse_context" where
  "expectJsonStringAscii context =
     (case readJsonStringAscii context ascii_push_back growing_buffer_new of
        (Some e, result, ctx) \<Rightarrow> (Inl e, ctx)
      | (None, result, ctx) \<Rightarrow> (Inr (to_string result), ctx))"





definition Revert_Token :: "parse_context \<Rightarrow> nat" where
  \<comment> \<open>Modelled from the spec: \<open>Parse_Context::Revert_Token\<close> is not among the source
      files; a checkpoint captures the offset.\<close>
  "Revert_Token ctx = ofs ctx"

definition revert :: "nat \<Rightarrow> parse_context \<Rightarrow> parse_context" where
  \<comment> \<open>Modelled from the spec: the destructor of a \<open>Revert_Token\<close> that was not
      committed (\<open>ignore\<close>) restores the offset, also when an exception leaves its scope.\<close>
  "revert token ctx = ctx\<lparr>ofs := token\<rparr>"

text \<open>
  \<open>matchJsonString\<close> returns its boolean, the string \<open>str\<close> and the context.
  \<open>catch (exception&)\<close> takes every exception of the model.
\<close>

definition matchJsonString :: "parse_context \<Rightarrow> string \<Rightarrow> bool \<times> string \<times> parse_context" where
  "matchJsonString context str =
     (let token = Revert_Token context in
      case expectJsonStringAscii context of
        (Inl e, ctx) \<Rightarrow> (False, str, revert token ctx)
      | (Inr s, ctx) \<Rightarrow> (True, s, ctx))"

definition matchJsonNull :: "parse_context \<Rightarrow> bool \<times> parse_context" where
  "matchJsonNull context = match_literal ''null'' (skipJsonWhitespace context)"

section \<open>json_parsing.cc: arrays and objects\<close>

text \<open>
  A visitor (\<open>onEntry\<close>) is the caller's code: it takes the index or key, the parse
  context and the state it captured, moves the context as it likes, may throw, may call
  back into the scanner, and need not return (\<open>None\<close>). Nothing bounds what a visitor
  does to the context, so the traversal loops are partial too: \<open>None\<close> is a traversal
  that does not return.
\<close>

type_synonym ('k, 's) visitor = "'k \<Rightarrow> parse_context \<Rightarrow> 's \<Rightarrow> 's outcome option"

partial_function (option) expectJsonArray_loop ::
  "(int, 's) visitor \<Rightarrow> int \<Rightarrow> parse_context \<Rightarrow> 's \<Rightarrow> 's outcome option" where
  "expectJsonArray_loop onEntry i ctx st =
     (case onEntry i (skipJsonWhitespace ctx) st of
        None \<Rightarrow> None
      | Some (Some e, st', ctx') \<Rightarrow> Some (Some e, st', ctx')
      | Some (None, st', ctx') \<Rightarrow>
          (case match_literal '','' (skipJsonWhitespace ctx') of
             (comma, ctx'') \<Rightarrow>
               if comma then expectJsonArray_loop onEntry (i + 1) ctx'' st'
               else Some (None, st', ctx'')))"

declare expectJsonArray_loop.simps [code]

definition expectJsonArray ::
  "parse_context \<Rightarrow> (int, 's) visitor \<Rightarrow> 's \<Rightarrow> 's outcome option" where
  "expectJsonArray context onEntry st =
     (case match_literal ''null'' (skipJsonWhitespace context) of
        (True, ctx) \<Rightarrow> Some (None, st, ctx)
      | (False, ctx) \<Rightarrow>
          (case expect_literal ''['' ctx of
             Inl e \<Rightarrow> Some (Some e, st, ctx)
           | Inr ctx1 \<Rightarrow>
               (case match_literal '']'' (skipJsonWhitespace ctx1) of
                  (True, ctx2) \<Rightarrow> Some (None, st, ctx2)
                | (False, ctx2) \<Rightarrow>
                    (case expectJsonArray_loop onEntry 0 ctx2 st of
                       None \<Rightarrow> None
                     | Some (Some e, st', ctx3) \<Rightarrow> Some (Some e, st', ctx3)
                     | Some (None, st', ctx3) \<Rightarrow>
                         (let ctx4 = skipJsonWhitespace ctx3 in
                          case expect_literal '']'' ctx4 of
                            Inl e \<Rightarrow> Some (Some e, st', ctx4)
                          | Inr ctx5 \<Rightarrow> Some (None, st', ctx5))))))"

partial_function (option) expectJsonObject_loop ::
  "(string, 's) visitor \<Rightarrow> parse_context \<Rightarrow> 's \<Rightarrow> 's outcome option" where
  "expectJsonObject_loop onEntry ctx st =
     (case expectJsonStringAscii (skipJsonWhitespace ctx) of
        (Inl e, ctx1) \<Rightarrow> Some (Some e, st, ctx1)
      | (Inr key, ctx1) \<Rightarrow>
          (let ctx2 = skipJsonWhitespace ctx1 in
           case expect_literal '':'' ctx2 of
             Inl e \<Rightarrow> Some (Some e, st, ctx2)
           | Inr ctx3 \<Rightarrow>
               (case onEntry key (skipJsonWhitespace ctx3) st of
                  None \<Rightarrow> None
                | Some (Some e, st', ctx4) \<Rightarrow> Some (Some e, st', ctx4)
                | Some (None, st', ctx4) \<Rightarrow>
                    (case match_literal '','' (skipJsonWhitespace ctx4) of
                       (comma, ctx5) \<Rightarrow>
                         if comma then expectJsonObject_loop onEntry ctx5 st'
                         else Some (None, st', ctx5)))))"

declare expectJsonObject_loop.simps [code]

definition expectJsonObject ::
  "parse_context \<Rightarrow> (string, 's) visitor \<Rightarrow> 's \<Rightarrow> 's outcome option" where
  "expectJsonObject context onEntry st =
     (case match_literal ''null'' (skipJsonWhitespace context) of
        (True, ctx) \<Rightarrow> Some (None, st, ctx)
      | (False, ctx) \<Rightarrow>
          (case expect_literal ''{'' ctx of
             Inl e \<Rightarrow> Some (Some e, st, ctx)
           | Inr ctx1 \<Rightarrow>
               (case match_literal ''}'' (skipJsonWhitespace ctx1) of
                  (True, ctx2) \<Rightarrow> Some (None, st, ctx2)
                | (False, ctx2) \<Rightarrow>
                    (case expectJsonObject_loop onEntry ctx2 st of
                       None \<Rightarrow> None
                     | Some (Some e, st', ctx3) \<Rightarrow> Some (Some e, st', ctx3)
                     | Some (None, st', ctx3) \<Rightarrow>
                         (let ctx4 = skipJsonWhitespace ctx3 in
                          case expect_literal ''}'' ctx4 of
                            Inl e \<Rightarrow> Some (Some e, st', ctx4)
                          | Inr ctx5 \<Rightarrow> Some (None, st', ctx5))))))"

text \<open>
  The visitor of \<open>matchJsonObject\<close> returns a boolean. The loop returns \<open>Inr False\<close>
  where the source returns false from inside it, and \<open>Inr True\<close> where it breaks.
\<close>

type_synonym 's matching = "(error + bool) \<times> 's \<times> parse_context"

partial_function (option) matchJsonObject_loop ::
  "(string \<Rightarrow> parse_context \<Rightarrow> 's \<Rightarrow> 's matching option) \<Rightarrow> parse_context \<Rightarrow> 's
     \<Rightarrow> 's matching option" where
  "matchJsonObject_loop onEntry ctx st =
     (case expectJsonStringAscii (skipJsonWhitespace ctx) of
        (Inl e, ctx1) \<Rightarrow> Some (Inl e, st, ctx1)
      | (Inr key, ctx1) \<Rightarrow>
          (case match_literal '':'' (skipJsonWhitespace ctx1) of
             (colon, ctx2) \<Rightarrow>
               if \<not> colon then Some (Inr False, st, ctx2)
               else
                 (case onEntry key (skipJsonWhitespace ctx2) st of
                    None \<Rightarrow> None
                  | Some (Inl e, st', ctx3) \<Rightarrow> Some (Inl e, st', ctx3)
                  | Some (Inr ok, st', ctx3) \<Rightarrow>
                      if \<not> ok then Some (Inr False, st', ctx3)
                      else
                        (case match_literal '','' (skipJsonWhitespace ctx3) of
                           (comma, ctx4) \<Rightarrow>
                             if comma then matchJsonObject_loop onEntry ctx4 st'
                             else Some (Inr True, st', ctx4)))))"

declare matchJsonObject_loop.simps [code]

definition matchJsonObject ::
  "parse_context \<Rightarrow> (string \<Rightarrow> parse_context \<Rightarrow> 's \<Rightarrow> 's matching option) \<Rightarrow> 's
     \<Rightarrow> 's matching option" where
  "matchJsonObject context onEntry st =
     (case match_literal ''null'' (skipJsonWhitespace context) of
        (True, ctx) \<Rightarrow> Some (Inr True, st, ctx)
      | (False, ctx) \<Rightarrow>
          (case match_literal ''{'' ctx of
             (False, ctx1) \<Rightarrow> Some (Inr False, st, ctx1)
           | (True, ctx1) \<Rightarrow>
               (case match_literal ''}'' (skipJsonWhitespace ctx1) of
                  (True, ctx2) \<Rightarrow> Some (Inr True, st, ctx2)
                | (False, ctx2) \<Rightarrow>
                    (case matchJsonObject_loop onEntry ctx2 st of
                       None \<Rightarrow> None
                     | Some (Inl e, st', ctx3) \<Rightarrow> Some (Inl e, st', ctx3)
                     | Some (Inr False, st', ctx3) \<Rightarrow> Some (Inr False, st', ctx3)
                     | Some (Inr True, st', ctx3) \<Rightarrow>
                         (case match_literal ''}'' (skipJsonWhitespace ctx3) of
                            (False, ctx4) \<Rightarrow> Some (Inr False, st', ctx4)
                          | (True, ctx4) \<Rightarrow> Some (Inr True, st', ctx4))))))"

section \<open>Reference notions\<close>

text \<open>
  The escapable set of the specification: printable ASCII (\<open>0x20\<close> to \<open>0x7E\<close>) plus tab,
  newline, carriage return, form feed and backspace; \<open>escape_of\<close> is the text that
  \<open>jsonEscape\<close> emits for one escapable byte.
\<close>

definition escapable :: "char \<Rightarrow> bool" where
  "escapable c =
     ((32 \<le> (of_char c :: nat) \<and> (of_char c :: nat) \<le> 126)
      \<or> c = CHR 0x09 \<or> c = CHR 0x0A \<or> c = CHR 0x0D \<or> c = CHR 0x0C \<or> c = CHR 0x08)"

definition escape_of :: "char \<Rightarrow> string" where
  "escape_of c =
     (if c = CHR 0x09 then [CHR 0x5C, CHR ''t'']
      else if c = CHR 0x0A then [CHR 0x5C, CHR ''n'']
      else if c = CHR 0x0D then [CHR 0x5C, CHR ''r'']
      else if c = CHR 0x0C then [CHR 0x5C, CHR ''f'']
      else if c = CHR 0x08 then [CHR 0x5C, CHR ''b'']
      else if c = CHR 0x22 \<or> c = CHR 0x5C then [CHR 0x5C, c]
      else [c])"

definition jsonEscaped :: "string \<Rightarrow> string" where
  "jsonEscaped s = concat (map escape_of s)"

text \<open>
  The bytes of the input that are not yet consumed, and a byte callback for
  \<open>readJsonString\<close> that appends each byte to a string and never throws.
\<close>

definition upcoming :: "parse_context \<Rightarrow> string" where
  "upcoming ctx = drop (ofs ctx) (input ctx)"

definition collect_bytes :: "(char, string) callback" where
  "collect_bytes ctx c st = (None, st @ [c])"

text \<open>
  A code-unit callback that throws when it is called, and a pair of callbacks that
  record, in one list, every byte and every code unit they are given.
\<close>

definition refuse_utf16 :: "(16 word, 's) callback" where
  "refuse_utf16 ctx u st = (Some (exception ctx ''unexpected code unit''), st)"

datatype delivered = Byte char | Code_Unit "16 word"

definition record_byte :: "(char, delivered list) callback" where
  "record_byte ctx c log = (None, log @ [Byte c])"

definition record_utf16 :: "(16 word, delivered list) callback" where
  "record_utf16 ctx u log = (None, log @ [Code_Unit u])"

text \<open>
  The value of a hexadecimal digit, \<open>None\<close> for any other character.
\<close>

definition hex_value :: "char \<Rightarrow> nat option" where
  "hex_value c =
     (let n = (of_char c :: nat) in
      if 48 \<le> n \<and> n \<le> 57 then Some (n - 48)
      else if 97 \<le> n \<and> n \<le> 102 then Some (n - 87)
      else if 65 \<le> n \<and> n \<le> 70 then Some (n - 55)
      else None)"

text \<open>
  The invariant of a \<open>growing_buffer\<close>: the write position is within the capacity, and
  the array that \<open>used\<close> aims at has the capacity's length.
\<close>

definition growing_inv :: "growing_buffer \<Rightarrow> bool" where
  "growing_inv b = (pos b \<le> bsize b \<and> length (cells b) = bsize b \<and> 0 < bsize b)"

text \<open>
  Appending a sequence of bytes to an \<open>external_buffer\<close>, one \<open>push_back\<close> each, up to
  the first that throws.
\<close>

fun external_push_all :: "string \<Rightarrow> external_buffer \<Rightarrow> error option \<times> external_buffer" where
  "external_push_all [] b = (None, b)"
| "external_push_all (c # cs) b =
     (case external_push_back c b of
        (Some e, b') \<Rightarrow> (Some e, b')
      | (None, b') \<Rightarrow> external_push_all cs b')"





text \<open>
  Visitors for the traversal example. Each records what it is called with, the index or
  key and the bytes from the cursor on. The array visitor then consumes one byte (a
  one-digit number); the object visitor calls \<open>expectJsonArray\<close> when the cursor is at an
  opening bracket and consumes one byte otherwise.
\<close>

datatype visit = Key string string | Index int string

definition array_visit :: "(int, visit list) visitor" where
  "array_visit i ctx log =
     (case next_char ctx of
        Inl e \<Rightarrow> Some (Some e, log, ctx)
      | Inr (c, ctx') \<Rightarrow> Some (None, log @ [Index i (upcoming ctx)], ctx'))"

definition object_visit :: "(string, visit list) visitor" where
  "object_visit key ctx log =
     (if take 1 (upcoming ctx) = ''[''
      then expectJsonArray ctx array_visit (log @ [Key key (upcoming ctx)])
      else (case next_char ctx of
              Inl e \<Rightarrow> Some (Some e, log, ctx)
            | Inr (c, ctx') \<Rightarrow> Some (None, log @ [Key key (upcoming ctx)], ctx')))"

definition example_object :: string where
  "example_object = ''{'' @ [CHR 0x22] @ ''a'' @ [CHR 0x22] @ '': 1, '' @ [CHR 0x22] @ ''b''
     @ [CHR 0x22] @ '': [2, 3]}''"

text \<open>
  The whitespace of the JSON subset: space, tab, line feed, carriage return.
\<close>

definition is_ws :: "char \<Rightarrow> bool" where
  "is_ws c = (c = CHR '' '' \<or> c = CHR 0x09 \<or> c = CHR 0x0A \<or> c = CHR 0x0D)"

section \<open>jsonEscape\<close>

lemma char_val_ge: "(char_val c \<ge> 32 \<and> char_val c < 127) = (32 \<le> (of_char c :: nat) \<and> (of_char c :: nat) < 127)"
proof -
  define n where "n = (of_char c :: nat)"
  have "n < 256" unfolding n_def by simp
  then show ?thesis unfolding char_val_def Let_def n_def [symmetric] by auto
qed

lemma char_val_space: "char_val CHR '' '' = 32"
  by (simp add: char_val_def)

lemma passes_through_iff:
  "passes_through c = (32 \<le> (of_char c :: nat) \<and> (of_char c :: nat) \<le> 126 \<and> c \<noteq> CHR 0x22 \<and> c \<noteq> CHR 0x5C)"
  unfolding passes_through_def char_val_space using char_val_ge [of c] by auto


lemma escapable_cases:
  "escapable c = (passes_through c \<or> escape_switch c \<noteq> None)"
  unfolding escapable_def passes_through_iff escape_switch_def by auto


lemma escape_of_pass: "passes_through c \<Longrightarrow> escape_of c = [c]"
  unfolding passes_through_iff escape_of_def by auto


lemma escape_of_switch:
  "\<not> passes_through c \<Longrightarrow> escape_switch c = Some d \<Longrightarrow> escape_of c = [CHR 0x5C, d]"
proof -
  assume np: "\<not> passes_through c" and sw: "escape_switch c = Some d"
  have "passes_through CHR ''/''" by (simp add: passes_through_iff)
  with np have "c \<noteq> CHR ''/''" by auto
  with sw show ?thesis
    unfolding escape_of_def escape_switch_def by (auto split: if_splits)
qed

lemma not_escapable: "\<not> escapable c \<Longrightarrow> \<not> passes_through c \<and> escape_switch c = None"
  by (simp add: escapable_cases)

lemma jsonEscapeCore_ok:
  "list_all escapable s \<Longrightarrow> p + 2 * length s + 3 \<le> e \<Longrightarrow> e \<le> length buf \<Longrightarrow>
     \<exists>buf'. jsonEscapeCore s p e buf = Inr (Some (p + length (jsonEscaped s)), buf')
        \<and> length buf' = length buf
        \<and> take (p + length (jsonEscaped s)) buf' = take p buf @ jsonEscaped s"
proof (induction s arbitrary: p buf)
  case Nil
  then show ?case by (simp add: jsonEscaped_def)
next
  case (Cons c s)
  from Cons.prems have room: "\<not> e \<le> p + 4" and esc: "escapable c" and rest: "list_all escapable s"
    by auto
  show ?case
  proof (cases "passes_through c")
    case True
    from Cons.IH [OF rest, of "p + 1" "buf[p := c]"] Cons.prems
    obtain buf' where
      "jsonEscapeCore s (p + 1) e (buf[p := c]) = Inr (Some (p + 1 + length (jsonEscaped s)), buf')"
      "length buf' = length buf"
      "take (p + 1 + length (jsonEscaped s)) buf' = take (p + 1) (buf[p := c]) @ jsonEscaped s"
      by auto
    moreover have "take (p + 1) (buf[p := c]) = take p buf @ [c]"
      using Cons.prems by (simp add: take_Suc_conv_app_nth)
    ultimately show ?thesis
      using True room by (simp add: jsonEscaped_def escape_of_pass)
  next
    case False
    with esc obtain d where d: "escape_switch c = Some d"
      by (auto simp: escapable_cases)
    from Cons.IH [OF rest, of "p + 2" "buf[p := CHR 0x5C, p + 1 := d]"] Cons.prems
    obtain buf' where
      "jsonEscapeCore s (p + 2) e (buf[p := CHR 0x5C, p + 1 := d]) = Inr (Some (p + 2 + length (jsonEscaped s)), buf')"
      "length buf' = length buf"
      "take (p + 2 + length (jsonEscaped s)) buf' = take (p + 2) (buf[p := CHR 0x5C, p + 1 := d]) @ jsonEscaped s"
      by auto
    moreover have "take (p + 2) (buf[p := CHR 0x5C, p + 1 := d]) = take p buf @ [CHR 0x5C, d]"
    proof -
      have "take (Suc (Suc p)) (buf[p := CHR 0x5C, Suc p := d])
              = take (Suc p) (buf[p := CHR 0x5C, Suc p := d]) @ [d]"
        using Cons.prems by (simp add: take_Suc_conv_app_nth)
      also have "take (Suc p) (buf[p := CHR 0x5C, Suc p := d]) = take p buf @ [CHR 0x5C]"
        using Cons.prems by (simp add: take_Suc_conv_app_nth)
      finally show ?thesis by simp
    qed
    ultimately show ?thesis
      using False room d by (simp add: jsonEscaped_def escape_of_switch [OF False d])
  qed
qed


lemma jsonEscapeCore_bad:
  "\<not> list_all escapable s \<Longrightarrow> p + 2 * length s + 3 \<le> e \<Longrightarrow>
     jsonEscapeCore s p e buf = Inl (Exception ''invalid character in Json string'')"
proof (induction s arbitrary: p buf)
  case Nil
  then show ?case by simp
next
  case (Cons c s)
  from Cons.prems have room: "\<not> e \<le> p + 4" by auto
  show ?case
  proof (cases "escapable c")
    case True
    with Cons.prems have bad: "\<not> list_all escapable s" by simp
    have a: "jsonEscapeCore s (p + 1) e b = Inl (Exception ''invalid character in Json string'')" for b
      using Cons.IH [OF bad, of "p + 1" b] Cons.prems by simp
    have b: "jsonEscapeCore s (p + 2) e b = Inl (Exception ''invalid character in Json string'')" for b
      using Cons.IH [OF bad, of "p + 2" b] Cons.prems by simp
    show ?thesis using room a b by (simp split: option.splits)
  next
    case False
    then show ?thesis using room by (simp add: not_escapable)
  qed
qed

lemma jsonEscape_eq:
  "jsonEscape s = (if list_all escapable s then Inr (jsonEscaped s)
                   else Inl (Exception ''invalid character in Json string''))"
proof (cases "list_all escapable s")
  case True
  from jsonEscapeCore_ok [OF True, of 0 "length s * 4 + 4" "replicate (length s * 4 + 4) CHR 0x00"]
  obtain buf' where
    "jsonEscapeCore s 0 (length s * 4 + 4) (replicate (length s * 4 + 4) CHR 0x00)
       = Inr (Some (length (jsonEscaped s)), buf')"
    "take (length (jsonEscaped s)) buf' = jsonEscaped s"
    by auto
  with True show ?thesis by (simp add: jsonEscape_def)
next
  case False
  from jsonEscapeCore_bad [OF False, of 0 "length s * 4 + 4" "replicate (length s * 4 + 4) CHR 0x00"]
  show ?thesis using False by (simp add: jsonEscape_def)
qed

text \<open>
  C10: \<open>jsonEscape\<close> accepts exactly the strings whose bytes all lie in the escapable set
  (\<open>0x20\<close> to \<open>0x7E\<close>, tab, newline, carriage return, form feed, backspace). A string
  with any other byte makes it throw; DEL and every byte of value 128 or more are such
  bytes.
\<close>

theorem jsonEscape_rejects_exactly:
  "(list_all escapable s \<longrightarrow> (\<exists>out. jsonEscape s = Inr out))
   \<and> (\<not> list_all escapable s \<longrightarrow> jsonEscape s = Inl (Exception ''invalid character in Json string''))
   \<and> (127 \<le> (of_char c :: nat) \<longrightarrow> \<not> escapable c)"
  by (auto simp: jsonEscape_eq escapable_def)

theorem jsonEscape_rejects_exactly_witness:
  "list_all escapable ''a/b'' \<and> (\<exists>out. jsonEscape ''a/b'' = Inr out)
   \<and> \<not> list_all escapable [CHR ''a'', CHR 0x7F]
   \<and> jsonEscape [CHR ''a'', CHR 0x7F] = Inl (Exception ''invalid character in Json string'')
   \<and> \<not> list_all escapable [CHR 0xC3, CHR 0xA9]
   \<and> jsonEscape [CHR 0xC3, CHR 0xA9] = Inl (Exception ''invalid character in Json string'')
   \<and> 127 \<le> (of_char (CHR 0x80) :: nat) \<and> \<not> escapable (CHR 0x80)"
  using jsonEscape_rejects_exactly [of "''a/b''" "CHR 0x80"]
    jsonEscape_rejects_exactly [of "[CHR ''a'', CHR 0x7F]" "CHR 0x80"]
    jsonEscape_rejects_exactly [of "[CHR 0xC3, CHR 0xA9]" "CHR 0x80"]
  by (simp add: escapable_def)

text \<open>
  C2, at the input \<open>/\<close>: the \<open>switch\<close> has a branch that escapes the slash, but the guard
  before it lets the slash through, so \<open>jsonEscape\<close> emits it unescaped.
\<close>

theorem jsonEscape_slash:
  "passes_through CHR ''/'' \<and> escape_switch CHR ''/'' = Some CHR ''/''
   \<and> jsonEscape ''/'' = Inr ''/''"
  by code_simp

section \<open>Cursor lemmas\<close>

lemma advance_advance [simp]: "advance n (advance m ctx) = advance (m + n) ctx"
  by (simp add: advance_def)

lemma advance_0 [simp]: "advance 0 ctx = ctx"
  by (simp add: advance_def)

lemma upcoming_advance: "upcoming ctx = xs @ ys \<Longrightarrow> upcoming (advance (length xs) ctx) = ys"
proof -
  assume a: "upcoming ctx = xs @ ys"
  have "upcoming (advance (length xs) ctx) = drop (length xs) (upcoming ctx)"
    by (simp add: upcoming_def advance_def add.commute)
  with a show ?thesis by simp
qed

lemma upcoming_advance1: "upcoming ctx = x # ys \<Longrightarrow> upcoming (advance 1 ctx) = ys"
  using upcoming_advance [of ctx "[x]" ys] by simp

lemma upcoming_not_eof: "upcoming ctx = x # xs \<Longrightarrow> \<not> eof ctx \<and> input ctx ! ofs ctx = x"
  by (auto simp: upcoming_def eof_def dest: nth_via_drop)

lemma next_char_upcoming: "upcoming ctx = x # xs \<Longrightarrow> next_char ctx = Inr (x, advance 1 ctx)"
  by (simp add: next_char_def peek_def upcoming_not_eof)

lemma match_literal_upcoming:
  "match_literal s ctx =
     (if take (length s) (upcoming ctx) = s then (True, advance (length s) ctx) else (False, ctx))"
  by (simp add: match_literal_def upcoming_def)

lemma expect_literal_upcoming:
  "upcoming ctx = s @ rest \<Longrightarrow> expect_literal s ctx = Inr (advance (length s) ctx)"
  by (simp add: expect_literal_def match_literal_upcoming)

lemma skipJsonWhitespace_none:
  "upcoming ctx = x # xs \<Longrightarrow> char_val x > 32 \<Longrightarrow> skipJsonWhitespace ctx = ctx"
  by (simp add: skipJsonWhitespace_def upcoming_not_eof char_val_space)

section \<open>readJsonString: one step of the loop\<close>

lemma loop_end:
  "upcoming ctx = CHR 0x22 # rest \<Longrightarrow> readJsonString_loop pb pu ctx st = (None, st, advance 1 ctx)"
  by (subst readJsonString_loop.simps) (simp add: match_literal_upcoming)

lemma loop_raw:
  "upcoming ctx = c # rest \<Longrightarrow> c \<noteq> CHR 0x22 \<Longrightarrow> c \<noteq> CHR 0x5C \<Longrightarrow>
     readJsonString_loop pb pu ctx st =
       (case pb (advance 1 ctx) c st of
          (Some e, st') \<Rightarrow> (Some e, st', advance 1 ctx)
        | (None, st') \<Rightarrow> readJsonString_loop pb pu (advance 1 ctx) st')"
  by (subst readJsonString_loop.simps)
     (simp add: match_literal_upcoming read_item_def next_char_upcoming split: prod.splits option.splits)

lemma read_escape_switch:
  "escape_switch c = Some l \<Longrightarrow>
     read_escape pb pu l ctx st = (case pb ctx c st of (r, st') \<Rightarrow> (r, st', ctx))"
  by (auto simp: escape_switch_def read_escape_def split: if_splits)

lemma loop_escape:
  assumes up: "upcoming ctx = CHR 0x5C # l # rest" and sw: "escape_switch c = Some l"
  shows "readJsonString_loop pb pu ctx st =
       (case pb (advance 2 ctx) c st of
          (Some e, st') \<Rightarrow> (Some e, st', advance 2 ctx)
        | (None, st') \<Rightarrow> readJsonString_loop pb pu (advance 2 ctx) st')"
proof -
  have n1: "next_char ctx = Inr (CHR 0x5C, advance 1 ctx)"
    by (rule next_char_upcoming [OF up])
  have n2: "next_char (advance 1 ctx) = Inr (l, advance 2 ctx)"
    using next_char_upcoming [OF upcoming_advance1 [OF up]] by (simp add: numeral_2_eq_2)
  have m: "match_literal [CHR 0x22] ctx = (False, ctx)"
    using up by (simp add: match_literal_upcoming)
  have "read_item pb pu ctx st = (case pb (advance 2 ctx) c st of (r, st') \<Rightarrow> (r, st', advance 2 ctx))"
    unfolding read_item_def n1 using n2 by (simp add: read_escape_switch [OF sw])
  then show ?thesis
    by (subst readJsonString_loop.simps) (simp add: m split: prod.splits option.splits)
qed

lemma loop_escaped:
  "list_all escapable s \<Longrightarrow> upcoming ctx = jsonEscaped s @ CHR 0x22 # rest \<Longrightarrow>
     readJsonString_loop collect_bytes pu ctx st
       = (None, st @ s, advance (length (jsonEscaped s) + 1) ctx)"
proof (induction s arbitrary: ctx st)
  case Nil
  then show ?case by (simp add: jsonEscaped_def loop_end)
next
  case (Cons c s)
  then have esc: "escapable c" and rest: "list_all escapable s" by auto
  show ?case
  proof (cases "passes_through c")
    case True
    then have c: "c \<noteq> CHR 0x22" "c \<noteq> CHR 0x5C" by (auto simp: passes_through_iff)
    from True Cons.prems have up: "upcoming ctx = c # (jsonEscaped s @ CHR 0x22 # rest)"
      by (simp add: jsonEscaped_def escape_of_pass)
    from Cons.IH [OF rest upcoming_advance1 [OF up]] True
    show ?thesis
      by (simp add: loop_raw [OF up c] collect_bytes_def jsonEscaped_def escape_of_pass)
  next
    case False
    with esc obtain d where d: "escape_switch c = Some d"
      by (auto simp: escapable_cases)
    from False d Cons.prems have up: "upcoming ctx = CHR 0x5C # d # (jsonEscaped s @ CHR 0x22 # rest)"
      by (simp add: jsonEscaped_def escape_of_switch)
    from upcoming_advance [of ctx "[CHR 0x5C, d]"] up
    have "upcoming (advance 2 ctx) = jsonEscaped s @ CHR 0x22 # rest"
      by (simp add: numeral_2_eq_2)
    from Cons.IH [OF rest this] False d
    show ?thesis
      by (simp add: loop_escape [OF up d] collect_bytes_def jsonEscaped_def escape_of_switch)
  qed
qed

text \<open>
  C3: for every string \<open>s\<close> of escapable bytes, \<open>jsonEscape s\<close> succeeds. Its output
  carries no quotes of its own: once a double quote is put before and after it (followed
  by anything), \<open>readJsonString\<close> hands exactly the bytes of \<open>s\<close>, in order, to the byte
  callback and stops after the closing quote. The code-unit callback is arbitrary: it is
  never called.
\<close>

theorem jsonEscape_readJsonString_roundtrip:
  "list_all escapable s \<Longrightarrow>
     \<exists>e. jsonEscape s = Inr e
       \<and> (\<forall>rest pu.
             readJsonString \<lparr>input = CHR 0x22 # e @ CHR 0x22 # rest, ofs = 0\<rparr> collect_bytes pu []
               = (None, s, \<lparr>input = CHR 0x22 # e @ CHR 0x22 # rest, ofs = length e + 2\<rparr>))"
proof -
  assume s: "list_all escapable s"
  have "readJsonString \<lparr>input = CHR 0x22 # jsonEscaped s @ CHR 0x22 # rest, ofs = 0\<rparr> collect_bytes pu []
          = (None, s, \<lparr>input = CHR 0x22 # jsonEscaped s @ CHR 0x22 # rest, ofs = length (jsonEscaped s) + 2\<rparr>)"
    for rest and pu :: "(16 word, string) callback"
  proof -
    let ?ctx = "\<lparr>input = CHR 0x22 # jsonEscaped s @ CHR 0x22 # rest, ofs = 0\<rparr>"
    have up: "upcoming ?ctx = CHR 0x22 # (jsonEscaped s @ CHR 0x22 # rest)"
      by (simp add: upcoming_def)
    have skip: "skipJsonWhitespace ?ctx = ?ctx"
      by (rule skipJsonWhitespace_none [OF up]) (simp add: char_val_def)
    have ex: "expect_literal [CHR 0x22] ?ctx = Inr (advance 1 ?ctx)"
      using expect_literal_upcoming [of ?ctx "[CHR 0x22]"] up by simp
    from loop_escaped [OF s upcoming_advance1 [OF up]]
    show ?thesis
      by (simp add: readJsonString_def skip ex advance_def)
  qed
  with s show ?thesis by (simp add: jsonEscape_eq)
qed

theorem jsonEscape_readJsonString_roundtrip_witness:
  "list_all escapable [CHR ''a'', CHR 0x22, CHR 0x5C, CHR ''/'', CHR 0x09, CHR 0x0A, CHR ''~'']
   \<and> jsonEscape [CHR ''a'', CHR 0x22, CHR 0x5C, CHR ''/'', CHR 0x09, CHR 0x0A, CHR ''~'']
        = Inr [CHR ''a'', CHR 0x5C, CHR 0x22, CHR 0x5C, CHR 0x5C, CHR ''/'', CHR 0x5C, CHR ''t'',
               CHR 0x5C, CHR ''n'', CHR ''~'']
   \<and> readJsonString
         \<lparr>input = CHR 0x22 # [CHR ''a'', CHR 0x5C, CHR 0x22, CHR 0x5C, CHR 0x5C, CHR ''/'', CHR 0x5C,
                    CHR ''t'', CHR 0x5C, CHR ''n'', CHR ''~''] @ CHR 0x22 # '', 1'', ofs = 0\<rparr>
         collect_bytes (\<lambda>ctx u st. (Some (exception ctx ''unexpected''), st)) []
       = (None, [CHR ''a'', CHR 0x22, CHR 0x5C, CHR ''/'', CHR 0x09, CHR 0x0A, CHR ''~''],
          \<lparr>input = CHR 0x22 # [CHR ''a'', CHR 0x5C, CHR 0x22, CHR 0x5C, CHR 0x5C, CHR ''/'', CHR 0x5C,
                    CHR ''t'', CHR 0x5C, CHR ''n'', CHR ''~''] @ CHR 0x22 # '', 1'', ofs = 13\<rparr>)"
proof -
  have e: "list_all escapable [CHR ''a'', CHR 0x22, CHR 0x5C, CHR ''/'', CHR 0x09, CHR 0x0A, CHR ''~'']"
    by (simp add: escapable_def)
  have j: "jsonEscape [CHR ''a'', CHR 0x22, CHR 0x5C, CHR ''/'', CHR 0x09, CHR 0x0A, CHR ''~'']
        = Inr [CHR ''a'', CHR 0x5C, CHR 0x22, CHR 0x5C, CHR 0x5C, CHR ''/'', CHR 0x5C, CHR ''t'',
               CHR 0x5C, CHR ''n'', CHR ''~'']"
    by code_simp
  from jsonEscape_readJsonString_roundtrip [OF e] e j show ?thesis by auto
qed

text \<open>
  C3 as first stated, with the quotes taken to be part of what \<open>jsonEscape\<close> produces,
  fails: \<open>jsonEscape\<close> returns \<open>abc\<close> for \<open>abc\<close>, and \<open>readJsonString\<close> on that output
  throws at offset 0, where it expects the opening quote, and delivers nothing.
\<close>

theorem jsonEscape_unquoted_counterexample:
  "jsonEscape ''abc'' = Inr ''abc''
   \<and> readJsonString \<lparr>input = ''abc'', ofs = 0\<rparr> collect_bytes refuse_utf16 []
       = (Some (exception \<lparr>input = ''abc'', ofs = 0\<rparr> (''expected literal '' @ [CHR 0x22])), [],
          \<lparr>input = ''abc'', ofs = 0\<rparr>)
   \<and> readJsonString \<lparr>input = CHR 0x22 # ''abc'' @ [CHR 0x22], ofs = 0\<rparr> collect_bytes refuse_utf16 []
       = (None, ''abc'', \<lparr>input = CHR 0x22 # ''abc'' @ [CHR 0x22], ofs = 5\<rparr>)"
  by code_simp

section \<open>Hexadecimal digits and unicode escapes\<close>

lemma char_val_between:
  "0 \<le> lo \<Longrightarrow> hi < 128 \<Longrightarrow>
     (lo \<le> char_val c \<and> char_val c \<le> hi) = (lo \<le> int (of_char c) \<and> int (of_char c) \<le> hi)"
proof -
  define n where "n = (of_char c :: nat)"
  assume "0 \<le> lo" "hi < 128"
  moreover have "n < 256" unfolding n_def by simp
  ultimately show ?thesis unfolding char_val_def Let_def n_def [symmetric] by auto
qed

lemma char_val_small: "(of_char c :: nat) < 128 \<Longrightarrow> char_val c = int (of_char c)"
  unfolding char_val_def Let_def by (simp del: of_nat_of_char)

lemma fromHex_eq:
  "fromHex h ctx =
     (case hex_value h of
        Some v \<Rightarrow> Inr (of_nat v)
      | None \<Rightarrow> Inl (Parse_Error (ofs ctx) (''invalid hexadecimal: '' @ [h])))"
proof -
  define n where "n = (of_char h :: nat)"
  have v: "char_val CHR ''0'' = 48" "char_val CHR ''9'' = 57"
    "char_val CHR ''a'' = 97" "char_val CHR ''f'' = 102"
    "char_val CHR ''A'' = 65" "char_val CHR ''F'' = 70"
    by (simp_all add: char_val_def)
  have b1: "(48 \<le> char_val h \<and> char_val h \<le> 57) = (48 \<le> n \<and> n \<le> 57)"
    using char_val_between [of 48 57 h] unfolding n_def by (auto simp del: of_nat_of_char)
  have b2: "(97 \<le> char_val h \<and> char_val h \<le> 102) = (97 \<le> n \<and> n \<le> 102)"
    using char_val_between [of 97 102 h] unfolding n_def by (auto simp del: of_nat_of_char)
  have b3: "(65 \<le> char_val h \<and> char_val h \<le> 70) = (65 \<le> n \<and> n \<le> 70)"
    using char_val_between [of 65 70 h] unfolding n_def by (auto simp del: of_nat_of_char)
  have cv: "n < 128 \<Longrightarrow> char_val h = int n"
    unfolding n_def by (rule char_val_small)
  have code: "fromHex h ctx =
     (if 48 \<le> n \<and> n \<le> 57 then Inr (word_of_int (char_val h - 48))
      else if 97 \<le> n \<and> n \<le> 102 then Inr (word_of_int (char_val h - 97 + 10))
      else if 65 \<le> n \<and> n \<le> 70 then Inr (word_of_int (char_val h - 65 + 10))
      else Inl (Parse_Error (ofs ctx) (''invalid hexadecimal: '' @ [h])))"
    unfolding fromHex_def v b1 b2 b3 exception_def ..
  have w1: "48 \<le> n \<and> n \<le> 57 \<Longrightarrow> word_of_int (char_val h - 48) = (of_nat (n - 48) :: 8 word)"
    using cv by (simp add: of_nat_diff)
  have w2: "97 \<le> n \<and> n \<le> 102 \<Longrightarrow> word_of_int (char_val h - 97 + 10) = (of_nat (n - 87) :: 8 word)"
    using cv by (simp add: of_nat_diff)
  have w3: "65 \<le> n \<and> n \<le> 70 \<Longrightarrow> word_of_int (char_val h - 65 + 10) = (of_nat (n - 55) :: 8 word)"
    using cv by (simp add: of_nat_diff)
  have spec: "hex_value h =
     (if 48 \<le> n \<and> n \<le> 57 then Some (n - 48)
      else if 97 \<le> n \<and> n \<le> 102 then Some (n - 87)
      else if 65 \<le> n \<and> n \<le> 70 then Some (n - 55)
      else None)"
    unfolding hex_value_def Let_def n_def ..
  show ?thesis
    unfolding code spec using w1 w2 w3 by (simp del: of_nat_diff)
qed

lemma hex_value_less: "hex_value h = Some v \<Longrightarrow> v < 16"
  by (auto simp: hex_value_def Let_def split: if_splits)

lemma hex_value_iff: "(hex_value h \<noteq> None) = (h \<in> set ''0123456789abcdefABCDEF'')"
proof
  assume "hex_value h \<noteq> None"
  then have r: "(48 \<le> (of_char h :: nat) \<and> (of_char h :: nat) \<le> 57)
      \<or> (97 \<le> (of_char h :: nat) \<and> (of_char h :: nat) \<le> 102)
      \<or> (65 \<le> (of_char h :: nat) \<and> (of_char h :: nat) \<le> 70)"
    by (auto simp: hex_value_def Let_def split: if_splits)
  define n where "n = (of_char h :: nat)"
  from r have "n \<in> {48, 49, 50, 51, 52, 53, 54, 55, 56, 57, 97, 98, 99, 100, 101, 102,
                     65, 66, 67, 68, 69, 70}"
    unfolding n_def [symmetric] by simp arith
  then have "\<exists>c \<in> set ''0123456789abcdefABCDEF''. (of_char c :: nat) = n"
    by (elim insertE emptyE) simp_all
  then obtain c where c: "c \<in> set ''0123456789abcdefABCDEF''" and "(of_char c :: nat) = of_char h"
    unfolding n_def by blast
  then have "h = c" by (simp only: of_char_eq_iff)
  with c show "h \<in> set ''0123456789abcdefABCDEF''" by simp
next
  assume "h \<in> set ''0123456789abcdefABCDEF''"
  then show "hex_value h \<noteq> None"
    by (auto simp: hex_value_def)
qed

lemma ucast_hex: "v < 16 \<Longrightarrow> (ucast (of_nat v :: 8 word) :: 16 word) = of_nat v"
  by (simp add: unsigned_of_nat take_bit_nat_eq_self)

lemma hex_disjoint: "v < 16 \<Longrightarrow> push_bit 4 (code :: 16 word) AND of_nat v = 0"
proof (rule bit_eqI)
  fix n
  assume v: "v < 16"
  have "\<not> bit v n" if "4 \<le> n"
  proof -
    have "v < 2 ^ 4" using v by simp
    also have "(2::nat) ^ 4 \<le> 2 ^ n" using that by (rule power_increasing) simp
    finally show ?thesis by (simp add: bit_iff_odd)
  qed
  then show "bit (push_bit 4 code AND word_of_nat v) n = bit (0 :: 16 word) n"
    by (auto simp: bit_simps)
qed

lemma hex_step:
  "v < 16 \<Longrightarrow> push_bit 4 (code :: 16 word) OR ucast (of_nat v :: 8 word) = code * 16 + of_nat v"
  using disjunctive_add_eq_or [OF hex_disjoint, of v code]
  by (simp add: ucast_hex push_bit_eq_mult)

lemma next_char_advance:
  "upcoming ctx = xs @ x # rest \<Longrightarrow>
     next_char (advance (length xs) ctx) = Inr (x, advance (Suc (length xs)) ctx)"
  using next_char_upcoming [OF upcoming_advance, of ctx xs x rest] by simp

lemma fromHex_loop_step:
  "next_char ctx = Inr (h, ctx1) \<Longrightarrow> hex_value h = Some v \<Longrightarrow>
     fromHex_loop (Suc n) code ctx = fromHex_loop n (code * 16 + of_nat v) ctx1"
  using hex_step [of v code] by (simp add: fromHex_eq hex_value_less)

lemma fromHex16_digits:
  assumes up: "upcoming ctx = a # b # c # d # rest"
    and v: "hex_value a = Some va" "hex_value b = Some vb" "hex_value c = Some vc"
      "hex_value d = Some vd"
  shows "fromHex16 ctx = (Inr (of_nat (4096 * va + 256 * vb + 16 * vc + vd)), advance 4 ctx)"
proof -
  have n1: "next_char ctx = Inr (a, advance (Suc 0) ctx)"
    using next_char_advance [of ctx "[]" a] up by simp
  have n2: "next_char (advance (Suc 0) ctx) = Inr (b, advance (Suc (Suc 0)) ctx)"
    using next_char_advance [of ctx "[a]" b] up by simp
  have n3: "next_char (advance (Suc (Suc 0)) ctx) = Inr (c, advance (Suc (Suc (Suc 0))) ctx)"
    using next_char_advance [of ctx "[a, b]" c] up by simp
  have n4: "next_char (advance (Suc (Suc (Suc 0))) ctx) = Inr (d, advance (Suc (Suc (Suc (Suc 0)))) ctx)"
    using next_char_advance [of ctx "[a, b, c]" d] up by simp
  have four: "(4::nat) = Suc (Suc (Suc (Suc 0)))" by simp
  have "fromHex_loop (Suc (Suc (Suc (Suc 0)))) 0 ctx
          = fromHex_loop 0 ((((0 * 16 + of_nat va) * 16 + of_nat vb) * 16 + of_nat vc) * 16 + of_nat vd)
              (advance (Suc (Suc (Suc (Suc 0)))) ctx)"
    by (simp only: fromHex_loop_step [OF n1 v(1)] fromHex_loop_step [OF n2 v(2)]
          fromHex_loop_step [OF n3 v(3)] fromHex_loop_step [OF n4 v(4)])
  then show ?thesis
    unfolding fromHex16_def four by (simp add: algebra_simps)
qed

lemma fromHex_loop_bad:
  "list_all (\<lambda>h. hex_value h \<noteq> None) hs \<Longrightarrow> hex_value x = None \<Longrightarrow>
   upcoming ctx = hs @ x # rest \<Longrightarrow> length hs < n \<Longrightarrow>
     fromHex_loop n code ctx
       = (Inl (Parse_Error (ofs ctx + length hs + 1) (''invalid hexadecimal: '' @ [x])),
          advance (length hs + 1) ctx)"
proof (induction hs arbitrary: n code ctx)
  case Nil
  then obtain m where n: "n = Suc m" by (cases n) auto
  from Nil have "next_char ctx = Inr (x, advance 1 ctx)"
    by (simp add: next_char_upcoming)
  with Nil show ?case
    by (simp add: n fromHex_eq advance_def)
next
  case (Cons h hs)
  then obtain m where n: "n = Suc m" by (cases n) auto
  from Cons.prems obtain v where v: "hex_value h = Some v" by auto
  from Cons.prems have nc: "next_char ctx = Inr (h, advance 1 ctx)"
    by (simp add: next_char_upcoming)
  from Cons.prems have up: "upcoming (advance 1 ctx) = hs @ x # rest"
    using upcoming_advance1 [of ctx h "hs @ x # rest"] by simp
  from Cons.prems n have len: "length hs < m" by simp
  from Cons.prems have hs: "list_all (\<lambda>h. hex_value h \<noteq> None) hs" by simp
  show ?case
    using Cons.IH [OF hs Cons.prems(2) up len]
    by (simp add: n nc fromHex_eq v advance_def)
qed

lemma loop_backslash:
  assumes up: "upcoming ctx = CHR 0x5C # l # rest"
  shows "readJsonString_loop pb pu ctx st =
       (case read_escape pb pu l (advance 2 ctx) st of
          (Some e, st', ctx') \<Rightarrow> (Some e, st', ctx')
        | (None, st', ctx') \<Rightarrow> readJsonString_loop pb pu ctx' st')"
proof -
  have n1: "next_char ctx = Inr (CHR 0x5C, advance 1 ctx)"
    by (rule next_char_upcoming [OF up])
  have n2: "next_char (advance 1 ctx) = Inr (l, advance 2 ctx)"
    using next_char_upcoming [OF upcoming_advance1 [OF up]] by (simp add: numeral_2_eq_2)
  have m: "match_literal [CHR 0x22] ctx = (False, ctx)"
    using up by (simp add: match_literal_upcoming)
  have "read_item pb pu ctx st = read_escape pb pu l (advance 2 ctx) st"
    unfolding read_item_def n1 using n2 by simp
  then show ?thesis
    by (subst readJsonString_loop.simps) (simp add: m)
qed

lemma read_escape_u:
  "read_escape pb pu CHR ''u'' ctx st =
     (case fromHex16 ctx of
        (Inl e, ctx') \<Rightarrow> (Some e, st, ctx')
      | (Inr code, ctx') \<Rightarrow> (case pu ctx' code st of (r, st') \<Rightarrow> (r, st', ctx')))"
  by (simp add: read_escape_def)

lemma loop_unicode:
  assumes up: "upcoming ctx = CHR 0x5C # CHR ''u'' # a # b # c # d # rest"
    and v: "hex_value a = Some va" "hex_value b = Some vb" "hex_value c = Some vc"
      "hex_value d = Some vd"
  shows "readJsonString_loop pb pu ctx st =
       (case pu (advance 6 ctx) (of_nat (4096 * va + 256 * vb + 16 * vc + vd)) st of
          (Some e, st') \<Rightarrow> (Some e, st', advance 6 ctx)
        | (None, st') \<Rightarrow> readJsonString_loop pb pu (advance 6 ctx) st')"
proof -
  have "upcoming (advance 2 ctx) = a # b # c # d # rest"
    using upcoming_advance [of ctx "[CHR 0x5C, CHR ''u'']"] up by (simp add: numeral_2_eq_2)
  from fromHex16_digits [OF this v]
  show ?thesis
    by (simp add: loop_backslash [OF up] read_escape_u split: prod.splits option.splits)
qed

lemma loop_unicode_bad:
  assumes up: "upcoming ctx = CHR 0x5C # CHR ''u'' # hs @ x # rest"
    and hs: "list_all (\<lambda>h. hex_value h \<noteq> None) hs" "length hs < 4"
    and x: "hex_value x = None"
  shows "readJsonString_loop pb pu ctx st =
       (Some (Parse_Error (ofs ctx + length hs + 3) (''invalid hexadecimal: '' @ [x])), st,
        advance (length hs + 3) ctx)"
proof -
  have "upcoming (advance 2 ctx) = hs @ x # rest"
    using upcoming_advance [of ctx "[CHR 0x5C, CHR ''u'']"] up by (simp add: numeral_2_eq_2)
  from fromHex_loop_bad [OF hs(1) x this hs(2)]
  show ?thesis
    by (simp add: loop_backslash [OF up] read_escape_u fromHex16_def advance_def)
qed

lemma readJsonString_quote:
  assumes up: "upcoming ctx = CHR 0x22 # rest"
  shows "readJsonString ctx pb pu st = readJsonString_loop pb pu (advance 1 ctx) st"
proof -
  have skip: "skipJsonWhitespace ctx = ctx"
    by (rule skipJsonWhitespace_none [OF up]) (simp add: char_val_def)
  have ex: "expect_literal [CHR 0x22] ctx = Inr (advance 1 ctx)"
    using expect_literal_upcoming [of ctx "[CHR 0x22]" rest] up by simp
  show ?thesis by (simp add: readJsonString_def skip ex)
qed

lemma loop_record_prefix:
  "list_all escapable s \<Longrightarrow> upcoming ctx = jsonEscaped s @ rest \<Longrightarrow>
     readJsonString_loop record_byte pu ctx log
       = readJsonString_loop record_byte pu (advance (length (jsonEscaped s)) ctx) (log @ map Byte s)"
proof (induction s arbitrary: ctx log)
  case Nil
  then show ?case by (simp add: jsonEscaped_def)
next
  case (Cons c s)
  then have esc: "escapable c" and rest: "list_all escapable s" by auto
  show ?case
  proof (cases "passes_through c")
    case True
    then have c: "c \<noteq> CHR 0x22" "c \<noteq> CHR 0x5C" by (auto simp: passes_through_iff)
    from True Cons.prems have up: "upcoming ctx = c # (jsonEscaped s @ rest)"
      by (simp add: jsonEscaped_def escape_of_pass)
    from Cons.IH [OF rest upcoming_advance1 [OF up], of "log @ [Byte c]"] True
    show ?thesis
      by (simp add: loop_raw [OF up c] record_byte_def jsonEscaped_def escape_of_pass)
  next
    case False
    with esc obtain d where d: "escape_switch c = Some d"
      by (auto simp: escapable_cases)
    from False d Cons.prems have up: "upcoming ctx = CHR 0x5C # d # (jsonEscaped s @ rest)"
      by (simp add: jsonEscaped_def escape_of_switch)
    from upcoming_advance [of ctx "[CHR 0x5C, d]"] up
    have "upcoming (advance 2 ctx) = jsonEscaped s @ rest"
      by (simp add: numeral_2_eq_2)
    from Cons.IH [OF rest this, of "log @ [Byte c]"] False d
    show ?thesis
      by (simp add: loop_escape [OF up d] record_byte_def jsonEscaped_def escape_of_switch)
  qed
qed

lemma readJsonString_unicode_between:
  assumes s: "list_all escapable s" and t: "list_all escapable t"
    and up: "upcoming ctx = CHR 0x22 # jsonEscaped s
               @ CHR 0x5C # CHR ''u'' # a # b # c # d # jsonEscaped t @ CHR 0x22 # rest"
    and v: "hex_value a = Some va" "hex_value b = Some vb" "hex_value c = Some vc"
      "hex_value d = Some vd"
  shows "readJsonString ctx record_byte record_utf16 []
       = (None,
          map Byte s @ [Code_Unit (of_nat (4096 * va + 256 * vb + 16 * vc + vd))] @ map Byte t,
          advance (length (jsonEscaped s) + length (jsonEscaped t) + 8) ctx)"
proof -
  let ?u = "of_nat (4096 * va + 256 * vb + 16 * vc + vd) :: 16 word"
  let ?esc = "CHR 0x5C # CHR ''u'' # a # b # c # d # jsonEscaped t @ CHR 0x22 # rest"
  define c1 where "c1 = advance 1 ctx"
  define c2 where "c2 = advance (length (jsonEscaped s)) c1"
  define c3 where "c3 = advance 6 c2"
  define c4 where "c4 = advance (length (jsonEscaped t)) c3"
  have u1: "upcoming c1 = jsonEscaped s @ ?esc"
    unfolding c1_def by (rule upcoming_advance1 [OF up])
  have u2: "upcoming c2 = ?esc"
    unfolding c2_def by (rule upcoming_advance [OF u1])
  have six: "length [CHR 0x5C, CHR ''u'', a, b, c, d] = 6" by simp
  have "upcoming c2 = [CHR 0x5C, CHR ''u'', a, b, c, d] @ (jsonEscaped t @ CHR 0x22 # rest)"
    using u2 by simp
  from upcoming_advance [OF this, unfolded six]
  have u3: "upcoming c3 = jsonEscaped t @ CHR 0x22 # rest"
    unfolding c3_def .
  have u4: "upcoming c4 = CHR 0x22 # rest"
    unfolding c4_def by (rule upcoming_advance [OF u3])
  have "readJsonString ctx record_byte record_utf16 []
      = readJsonString_loop record_byte record_utf16 c1 []"
    unfolding c1_def by (rule readJsonString_quote [OF up])
  also have "\<dots> = readJsonString_loop record_byte record_utf16 c2 (map Byte s)"
    using loop_record_prefix [OF s u1, of record_utf16 "[]"] by (simp add: c2_def)
  also have "\<dots> = readJsonString_loop record_byte record_utf16 c3 (map Byte s @ [Code_Unit ?u])"
    using loop_unicode [OF u2 v, of record_byte record_utf16 "map Byte s"]
    by (simp add: record_utf16_def c3_def)
  also have "\<dots> = readJsonString_loop record_byte record_utf16 c4
                      (map Byte s @ [Code_Unit ?u] @ map Byte t)"
    using loop_record_prefix [OF t u3, of record_utf16 "map Byte s @ [Code_Unit ?u]"]
    by (simp add: c4_def)
  also have "\<dots> = (None, map Byte s @ [Code_Unit ?u] @ map Byte t, advance 1 c4)"
    by (rule loop_end [OF u4])
  also have "advance 1 c4 = advance (length (jsonEscaped s) + length (jsonEscaped t) + 8) ctx"
    unfolding c4_def c3_def c2_def c1_def by (simp add: advance_def)
  finally show ?thesis .
qed

text \<open>
  C9: when \<open>readJsonString\<close> meets a backslash, \<open>u\<close> and four hexadecimal digits, it
  consumes exactly these six bytes and hands one code unit, the value of the four
  digits, to \<open>push_back_utf16\<close> and nothing to the byte callback. This is stated for a
  call of \<open>readJsonString\<close> on a string that opens with the escape, for any callbacks;
  for a call on a string with the escape between two runs of escaped text, where the
  record of all deliveries holds the bytes before, the one code unit, and the bytes
  after; and for any pass of the loop. \<open>fromHex\<close> fails exactly on the characters outside
  \<open>0-9\<close>, \<open>a-f\<close>, \<open>A-F\<close>, with a parse error whose message ends in the offending
  character, and so do the loop and \<open>readJsonString\<close> when such a character stands among
  the four digits; no callback is called then.
\<close>

theorem readJsonString_unicode_escape:
  "(upcoming ctx = CHR 0x22 # CHR 0x5C # CHR ''u'' # a # b # c # d # rest
      \<and> hex_value a = Some va \<and> hex_value b = Some vb \<and> hex_value c = Some vc
      \<and> hex_value d = Some vd
    \<longrightarrow> readJsonString ctx pb pu st =
          (case pu (advance 7 ctx) (of_nat (4096 * va + 256 * vb + 16 * vc + vd)) st of
             (Some e, st') \<Rightarrow> (Some e, st', advance 7 ctx)
           | (None, st') \<Rightarrow> readJsonString_loop pb pu (advance 7 ctx) st'))
   \<and> (list_all escapable s \<and> list_all escapable t
      \<and> upcoming ctx = CHR 0x22 # jsonEscaped s
            @ CHR 0x5C # CHR ''u'' # a # b # c # d # jsonEscaped t @ CHR 0x22 # rest
      \<and> hex_value a = Some va \<and> hex_value b = Some vb \<and> hex_value c = Some vc
      \<and> hex_value d = Some vd
    \<longrightarrow> readJsonString ctx record_byte record_utf16 []
          = (None,
             map Byte s @ [Code_Unit (of_nat (4096 * va + 256 * vb + 16 * vc + vd))] @ map Byte t,
             advance (length (jsonEscaped s) + length (jsonEscaped t) + 8) ctx))
   \<and> (upcoming ctx = CHR 0x5C # CHR ''u'' # a # b # c # d # rest
      \<and> hex_value a = Some va \<and> hex_value b = Some vb \<and> hex_value c = Some vc
      \<and> hex_value d = Some vd
    \<longrightarrow> readJsonString_loop pb pu ctx st =
          (case pu (advance 6 ctx) (of_nat (4096 * va + 256 * vb + 16 * vc + vd)) st of
             (Some e, st') \<Rightarrow> (Some e, st', advance 6 ctx)
           | (None, st') \<Rightarrow> readJsonString_loop pb pu (advance 6 ctx) st'))
   \<and> ((hex_value h = None) = (h \<notin> set ''0123456789abcdefABCDEF''))
   \<and> (hex_value h = None
        \<longrightarrow> fromHex h ctx = Inl (Parse_Error (ofs ctx) (''invalid hexadecimal: '' @ [h])))
   \<and> (upcoming ctx = CHR 0x5C # CHR ''u'' # hs @ h # rest
        \<and> list_all (\<lambda>h. hex_value h \<noteq> None) hs \<and> length hs < 4 \<and> hex_value h = None
        \<longrightarrow> readJsonString_loop pb pu ctx st =
              (Some (Parse_Error (ofs ctx + length hs + 3) (''invalid hexadecimal: '' @ [h])), st,
               advance (length hs + 3) ctx))
   \<and> (upcoming ctx = CHR 0x22 # CHR 0x5C # CHR ''u'' # hs @ h # rest
        \<and> list_all (\<lambda>h. hex_value h \<noteq> None) hs \<and> length hs < 4 \<and> hex_value h = None
        \<longrightarrow> readJsonString ctx pb pu st =
              (Some (Parse_Error (ofs ctx + length hs + 4) (''invalid hexadecimal: '' @ [h])), st,
               advance (length hs + 4) ctx))"
proof -
  have first: "readJsonString ctx pb pu st =
          (case pu (advance 7 ctx) (of_nat (4096 * va + 256 * vb + 16 * vc + vd)) st of
             (Some e, st') \<Rightarrow> (Some e, st', advance 7 ctx)
           | (None, st') \<Rightarrow> readJsonString_loop pb pu (advance 7 ctx) st')"
    if up: "upcoming ctx = CHR 0x22 # CHR 0x5C # CHR ''u'' # a # b # c # d # rest"
      and v: "hex_value a = Some va" "hex_value b = Some vb" "hex_value c = Some vc"
        "hex_value d = Some vd"
  proof -
    have a7: "advance 6 (advance 1 ctx) = advance 7 ctx" by (simp add: advance_def)
    have "readJsonString ctx pb pu st = readJsonString_loop pb pu (advance 1 ctx) st"
      by (rule readJsonString_quote [OF up])
    also note loop_unicode [OF upcoming_advance1 [OF up] v, of pb pu st]
    finally show ?thesis unfolding a7 .
  qed
  have bad: "readJsonString ctx pb pu st =
              (Some (Parse_Error (ofs ctx + length hs + 4) (''invalid hexadecimal: '' @ [h])), st,
               advance (length hs + 4) ctx)"
    if up: "upcoming ctx = CHR 0x22 # CHR 0x5C # CHR ''u'' # hs @ h # rest"
      and hs: "list_all (\<lambda>h. hex_value h \<noteq> None) hs" "length hs < 4" and h: "hex_value h = None"
  proof -
    have a: "advance (length hs + 3) (advance 1 ctx) = advance (length hs + 4) ctx"
      "ofs (advance 1 ctx) + length hs + 3 = ofs ctx + length hs + 4"
      by (simp_all add: advance_def)
    have "readJsonString ctx pb pu st = readJsonString_loop pb pu (advance 1 ctx) st"
      by (rule readJsonString_quote [OF up])
    also note loop_unicode_bad [OF upcoming_advance1 [OF up] hs h, of pb pu st]
    finally show ?thesis unfolding a .
  qed
  show ?thesis
    using hex_value_iff [of h] first bad
      readJsonString_unicode_between [of s t ctx a b c d rest va vb vc vd]
    by (auto simp: loop_unicode loop_unicode_bad fromHex_eq)
qed

theorem readJsonString_unicode_escape_witness:
  "upcoming \<lparr>input = CHR 0x22 # ''a'' @ CHR 0x5C # ''u00e9'' @ CHR 0x5C # ''n'' @ [CHR 0x22], ofs = 0\<rparr>
      = CHR 0x22 # jsonEscaped ''a''
          @ CHR 0x5C # CHR ''u'' # CHR ''0'' # CHR ''0'' # CHR ''e'' # CHR ''9''
          # jsonEscaped [CHR 0x0A] @ CHR 0x22 # []
   \<and> list_all escapable ''a'' \<and> list_all escapable [CHR 0x0A]
   \<and> hex_value CHR ''0'' = Some 0 \<and> hex_value CHR ''e'' = Some 14 \<and> hex_value CHR ''9'' = Some 9
   \<and> readJsonString \<lparr>input = CHR 0x22 # ''a'' @ CHR 0x5C # ''u00e9'' @ CHR 0x5C # ''n'' @ [CHR 0x22], ofs = 0\<rparr> record_byte record_utf16 []
       = (None, [Byte CHR ''a'', Code_Unit 0xE9, Byte CHR 0x0A], \<lparr>input = CHR 0x22 # ''a'' @ CHR 0x5C # ''u00e9'' @ CHR 0x5C # ''n'' @ [CHR 0x22], ofs = 11\<rparr>)
   \<and> upcoming \<lparr>input = CHR 0x22 # CHR 0x5C # ''u0g12'' @ [CHR 0x22], ofs = 0\<rparr> = CHR 0x22 # CHR 0x5C # CHR ''u'' # ''0'' @ CHR ''g'' # ''12'' @ [CHR 0x22]
   \<and> list_all (\<lambda>h. hex_value h \<noteq> None) ''0'' \<and> length ''0'' < 4
   \<and> hex_value CHR ''g'' = None
   \<and> fromHex CHR ''g'' \<lparr>input = CHR 0x22 # CHR 0x5C # ''u0g12'' @ [CHR 0x22], ofs = 0\<rparr> = Inl (Parse_Error 0 ''invalid hexadecimal: g'')
   \<and> readJsonString \<lparr>input = CHR 0x22 # CHR 0x5C # ''u0g12'' @ [CHR 0x22], ofs = 0\<rparr> record_byte record_utf16 []
       = (Some (Parse_Error 5 ''invalid hexadecimal: g''), [], \<lparr>input = CHR 0x22 # CHR 0x5C # ''u0g12'' @ [CHR 0x22], ofs = 5\<rparr>)"
proof -
  let ?good = "\<lparr>input = CHR 0x22 # ''a'' @ CHR 0x5C # ''u00e9'' @ CHR 0x5C # ''n'' @ [CHR 0x22], ofs = 0\<rparr>"
  let ?bad = "\<lparr>input = CHR 0x22 # CHR 0x5C # ''u0g12'' @ [CHR 0x22], ofs = 0\<rparr>"
  have up: "upcoming ?good
      = CHR 0x22 # jsonEscaped ''a''
          @ CHR 0x5C # CHR ''u'' # CHR ''0'' # CHR ''0'' # CHR ''e'' # CHR ''9''
          # jsonEscaped [CHR 0x0A] @ CHR 0x22 # []"
    by (simp add: upcoming_def jsonEscaped_def escape_of_def)
  have upb: "upcoming ?bad = CHR 0x22 # CHR 0x5C # CHR ''u'' # ''0'' @ CHR ''g'' # ''12'' @ [CHR 0x22]"
    by (simp add: upcoming_def)
  have es: "list_all escapable ''a''" "list_all escapable [CHR 0x0A]"
    by (simp_all add: escapable_def)
  have hv: "hex_value CHR ''0'' = Some 0" "hex_value CHR ''e'' = Some 14"
    "hex_value CHR ''9'' = Some 9" "hex_value CHR ''g'' = None"
    by (simp_all add: hex_value_def)
  have hs: "list_all (\<lambda>h. hex_value h \<noteq> None) ''0''" "length ''0'' < 4"
    by (simp_all add: hex_value_def)
  have len: "length (jsonEscaped ''a'') = 1" "length (jsonEscaped [CHR 0x0A]) = 2"
    by (simp_all add: jsonEscaped_def escape_of_def)
  note g = readJsonString_unicode_escape [where ctx = ?good and a = "CHR ''0''" and b = "CHR ''0''"
      and c = "CHR ''e''" and d = "CHR ''9''" and rest = "[]" and va = 0 and vb = 0
      and vc = 14 and vd = 9 and s = "''a''" and t = "[CHR 0x0A]"]
  from g [THEN conjunct2, THEN conjunct1] up es hv
  have good: "readJsonString ?good record_byte record_utf16 []
       = (None, [Byte CHR ''a'', Code_Unit 0xE9, Byte CHR 0x0A], \<lparr>input = CHR 0x22 # ''a'' @ CHR 0x5C # ''u00e9'' @ CHR 0x5C # ''n'' @ [CHR 0x22], ofs = 11\<rparr>)"
    by (simp add: len advance_def)
  note b = readJsonString_unicode_escape [where ctx = ?bad and rest = "''12'' @ [CHR 0x22]"
      and pb = record_byte and pu = record_utf16 and st = "[]" and h = "CHR ''g''" and hs = "''0''"]
  from b [THEN conjunct2, THEN conjunct2, THEN conjunct2, THEN conjunct2, THEN conjunct1] hv
  have bad1: "fromHex CHR ''g'' ?bad = Inl (Parse_Error 0 ''invalid hexadecimal: g'')"
    by simp
  from b [THEN conjunct2, THEN conjunct2, THEN conjunct2, THEN conjunct2, THEN conjunct2,
      THEN conjunct2] upb hv hs
  have bad2: "readJsonString ?bad record_byte record_utf16 []
       = (Some (Parse_Error 5 ''invalid hexadecimal: g''), [], \<lparr>input = CHR 0x22 # CHR 0x5C # ''u0g12'' @ [CHR 0x22], ofs = 5\<rparr>)"
    by (simp add: advance_def)
  note bad = bad1 bad2
  from up upb es hv hs good bad show ?thesis by simp
qed

section \<open>Buffers\<close>

lemma growing_inv_new: "growing_inv growing_buffer_new"
  by (simp add: growing_inv_def growing_buffer_new_def cells_def)

lemma store_append:
  "pos b < bsize b \<Longrightarrow> length (cells b) = bsize b \<Longrightarrow>
     to_string (store c b) = to_string b @ [c] \<and> length (cells (store c b)) = bsize b
     \<and> pos (store c b) = pos b + 1 \<and> bsize (store c b) = bsize b"
  by (cases "used b"; cases "alloc b")
     (auto simp: store_def to_string_def cells_def take_Suc_conv_app_nth)

lemma growing_push_back_append:
  assumes "growing_inv b"
  shows "to_string (growing_push_back c b) = to_string b @ [c]
     \<and> growing_inv (growing_push_back c b) \<and> pos (growing_push_back c b) = pos b + 1"
proof (cases "pos b = bsize b")
  case True
  let ?b = "b\<lparr>alloc := Some (take (bsize b) (cells b) @ replicate (bsize b * 8 - bsize b) CHR 0x00),
              used := Alloc, bsize := bsize b * 8\<rparr>"
  from assms True have c: "cells ?b = cells b @ replicate (bsize b * 8 - bsize b) CHR 0x00"
    and l: "length (cells ?b) = bsize ?b" and p: "pos ?b < bsize ?b"
    and ts: "to_string ?b = to_string b"
    by (auto simp: growing_inv_def cells_def to_string_def)
  from store_append [OF p l, of c] True ts assms show ?thesis
    by (simp add: growing_push_back_def Let_def growing_inv_def)
next
  case False
  with assms have "pos b < bsize b" "length (cells b) = bsize b"
    by (auto simp: growing_inv_def)
  from store_append [OF this, of c] False assms show ?thesis
    by (simp add: growing_push_back_def growing_inv_def)
qed

lemma fold_growing_push_back:
  "growing_inv b \<Longrightarrow>
     to_string (fold growing_push_back bs b) = to_string b @ bs
     \<and> growing_inv (fold growing_push_back bs b)
     \<and> pos (fold growing_push_back bs b) = pos b + length bs"
proof (induction bs arbitrary: b)
  case Nil
  then show ?case by simp
next
  case (Cons c bs)
  from growing_push_back_append [OF Cons.prems, of c] Cons.IH [of "growing_push_back c b"]
  show ?case by simp
qed

lemma growing_push_back_storage:
  "bsize (growing_push_back c b) = (if pos b = bsize b then 8 * bsize b else bsize b)
   \<and> (pos b = bsize b \<longrightarrow> used (growing_push_back c b) = Alloc \<and> alloc (growing_push_back c b) \<noteq> None)
   \<and> (pos b \<noteq> bsize b \<longrightarrow> used (growing_push_back c b) = used b
          \<and> (alloc (growing_push_back c b) = None) = (alloc b = None))"
  by (cases "used b") (auto simp: growing_push_back_def store_def Let_def)

lemma fold_inline:
  "used b = Internal \<Longrightarrow> alloc b = None \<Longrightarrow> pos b + length bs \<le> bsize b \<Longrightarrow> growing_inv b \<Longrightarrow>
     used (fold growing_push_back bs b) = Internal \<and> alloc (fold growing_push_back bs b) = None
     \<and> bsize (fold growing_push_back bs b) = bsize b"
proof (induction bs arbitrary: b)
  case Nil
  then show ?case by simp
next
  case (Cons c bs)
  then have ne: "pos b \<noteq> bsize b" by auto
  from growing_push_back_storage [of c b] growing_push_back_append [OF Cons.prems(4), of c] ne
    Cons.prems
  have "used (growing_push_back c b) = Internal" "alloc (growing_push_back c b) = None"
    "pos (growing_push_back c b) + length bs \<le> bsize (growing_push_back c b)"
    "growing_inv (growing_push_back c b)" "bsize (growing_push_back c b) = bsize b"
    by auto
  from Cons.IH [OF this(1-4)] this(5) show ?case by simp
qed

lemma fold_allocated:
  "used b = Alloc \<Longrightarrow> alloc b \<noteq> None \<Longrightarrow>
     used (fold growing_push_back bs b) = Alloc \<and> alloc (fold growing_push_back bs b) \<noteq> None"
proof (induction bs arbitrary: b)
  case Nil
  then show ?case by simp
next
  case (Cons c bs)
  from growing_push_back_storage [of c b] Cons.prems
  have "used (growing_push_back c b) = Alloc" "alloc (growing_push_back c b) \<noteq> None"
    by (cases "pos b = bsize b"; simp)+
  from Cons.IH [OF this] show ?case by simp
qed

lemma fold_overflow:
  assumes "4096 < length bs"
  shows "used (fold growing_push_back bs growing_buffer_new) = Alloc
     \<and> alloc (fold growing_push_back bs growing_buffer_new) \<noteq> None"
proof -
  define b where "b = fold growing_push_back (take 4096 bs) growing_buffer_new"
  from assms obtain c cs where cs: "drop 4096 bs = c # cs"
    by (cases "drop 4096 bs") auto
  have bs: "bs = take 4096 bs @ c # cs"
    using cs append_take_drop_id [of 4096 bs] by simp
  have len: "length (take 4096 bs) = 4096" using assms by simp
  have full: "pos b = 4096" "bsize b = 4096"
    using fold_growing_push_back [OF growing_inv_new, of "take 4096 bs"]
      fold_inline [of growing_buffer_new "take 4096 bs"] growing_inv_new len
    unfolding b_def by (simp_all add: growing_buffer_new_def)
  with growing_push_back_storage [of c b]
  have "used (growing_push_back c b) = Alloc" "alloc (growing_push_back c b) \<noteq> None"
    by simp_all
  from fold_allocated [OF this, of cs]
  have "used (fold growing_push_back (take 4096 bs @ c # cs) growing_buffer_new) = Alloc
     \<and> alloc (fold growing_push_back (take 4096 bs @ c # cs) growing_buffer_new) \<noteq> None"
    by (simp add: b_def)
  with bs show ?thesis by simp
qed

text \<open>
  C7: appending any sequence of bytes, one at a time, to a fresh \<open>growing_buffer\<close> and
  converting it to a string gives back the sequence, whatever its length. The fresh
  buffer uses its inline array of 4096 bytes and owns no heap block; it still does after
  up to 4096 appends, and uses a heap block after more. A \<open>push_back\<close> changes the
  capacity only when the buffer is full, and then to eight times its value; when the
  buffer is not full it allocates nothing.
\<close>

theorem growing_buffer_roundtrip:
  "to_string (fold growing_push_back bs growing_buffer_new) = bs
   \<and> used growing_buffer_new = Internal \<and> alloc growing_buffer_new = None
   \<and> bsize growing_buffer_new = 4096 \<and> length (internal growing_buffer_new) = 4096
   \<and> (length bs \<le> 4096 \<longrightarrow>
         used (fold growing_push_back bs growing_buffer_new) = Internal
         \<and> alloc (fold growing_push_back bs growing_buffer_new) = None
         \<and> bsize (fold growing_push_back bs growing_buffer_new) = 4096)
   \<and> (4096 < length bs \<longrightarrow>
         used (fold growing_push_back bs growing_buffer_new) = Alloc
         \<and> alloc (fold growing_push_back bs growing_buffer_new) \<noteq> None)
   \<and> bsize (growing_push_back c b) = (if pos b = bsize b then 8 * bsize b else bsize b)
   \<and> (pos b \<noteq> bsize b \<longrightarrow> used (growing_push_back c b) = used b
          \<and> (alloc (growing_push_back c b) = None) = (alloc b = None))"
proof -
  have e: "to_string growing_buffer_new = []"
    by (simp add: to_string_def growing_buffer_new_def)
  have a: "to_string (fold growing_push_back bs growing_buffer_new) = bs"
    using fold_growing_push_back [OF growing_inv_new, of bs] e by simp
  have b: "length bs \<le> 4096 \<Longrightarrow>
         used (fold growing_push_back bs growing_buffer_new) = Internal
         \<and> alloc (fold growing_push_back bs growing_buffer_new) = None
         \<and> bsize (fold growing_push_back bs growing_buffer_new) = 4096"
    using fold_inline [of growing_buffer_new bs] growing_inv_new
    by (simp add: growing_buffer_new_def)
  show ?thesis
    using a b fold_overflow [of bs] growing_push_back_storage [of c b]
    by (simp add: growing_buffer_new_def)
qed

theorem growing_buffer_roundtrip_witness:
  "length ''0123456789'' \<le> 4096
   \<and> to_string (fold growing_push_back ''0123456789'' growing_buffer_new) = ''0123456789''
   \<and> used (fold growing_push_back ''0123456789'' growing_buffer_new) = Internal
   \<and> alloc (fold growing_push_back ''0123456789'' growing_buffer_new) = None
   \<and> 4096 < length (replicate 4097 CHR ''x'')
   \<and> to_string (fold growing_push_back (replicate 4097 CHR ''x'') growing_buffer_new)
        = replicate 4097 CHR ''x''
   \<and> used (fold growing_push_back (replicate 4097 CHR ''x'') growing_buffer_new) = Alloc
   \<and> alloc (fold growing_push_back (replicate 4097 CHR ''x'') growing_buffer_new) \<noteq> None
   \<and> pos growing_buffer_new \<noteq> bsize growing_buffer_new
   \<and> used (growing_push_back CHR ''x'' growing_buffer_new) = used growing_buffer_new
   \<and> alloc (growing_push_back CHR ''x'' growing_buffer_new) = None"
proof -
  have l1: "length ''0123456789'' \<le> 4096" by simp
  have l2: "4096 < length (replicate 4097 CHR ''x'')" by (simp only: length_replicate)
  have l3: "pos growing_buffer_new \<noteq> bsize growing_buffer_new"
    and l4: "alloc growing_buffer_new = None"
    by (simp_all add: growing_buffer_new_def)
  note t1 = growing_buffer_roundtrip [of "''0123456789''" "CHR ''x''" growing_buffer_new]
  note t2 = growing_buffer_roundtrip [of "replicate 4097 CHR ''x''" "CHR ''x''" growing_buffer_new]
  from t1 l1 have a: "to_string (fold growing_push_back ''0123456789'' growing_buffer_new) = ''0123456789''"
    "used (fold growing_push_back ''0123456789'' growing_buffer_new) = Internal"
    "alloc (fold growing_push_back ''0123456789'' growing_buffer_new) = None"
    by blast+
  from t2 l2 have b: "to_string (fold growing_push_back (replicate 4097 CHR ''x'') growing_buffer_new)
        = replicate 4097 CHR ''x''"
    "used (fold growing_push_back (replicate 4097 CHR ''x'') growing_buffer_new) = Alloc"
    "alloc (fold growing_push_back (replicate 4097 CHR ''x'') growing_buffer_new) \<noteq> None"
    by blast+
  from t1 l3 l4 have c: "used (growing_push_back CHR ''x'' growing_buffer_new) = used growing_buffer_new"
    "alloc (growing_push_back CHR ''x'' growing_buffer_new) = None"
    by blast+
  from l1 l2 l3 a b c show ?thesis by blast
qed

lemma external_push_all_fits:
  "pos b + length bs \<le> bsize b \<Longrightarrow> bsize b \<le> length (used b) \<Longrightarrow>
     \<exists>b'. external_push_all bs b = (None, b') \<and> pos b' = pos b + length bs
       \<and> bsize b' = bsize b \<and> length (used b') = length (used b)
       \<and> to_string_ext b' = to_string_ext b @ bs"
proof (induction bs arbitrary: b)
  case Nil
  then show ?case by simp
next
  case (Cons c bs)
  let ?b = "b\<lparr>used := (used b)[pos b := c], pos := pos b + 1\<rparr>"
  from Cons.prems have step: "external_push_back c b = (None, ?b)"
    by (simp add: external_push_back_def)
  from Cons.prems have "pos ?b + length bs \<le> bsize ?b" "bsize ?b \<le> length (used ?b)"
    by simp_all
  from Cons.IH [OF this] obtain b' where b':
    "external_push_all bs ?b = (None, b')" "pos b' = pos ?b + length bs"
    "bsize b' = bsize ?b" "length (used b') = length (used ?b)"
    "to_string_ext b' = to_string_ext ?b @ bs"
    by blast
  from Cons.prems have "to_string_ext ?b = to_string_ext b @ [c]"
    by (simp add: to_string_ext_def take_Suc_conv_app_nth)
  with b' step show ?case by simp
qed

text \<open>
  C8: take an \<open>external_buffer\<close> of capacity \<open>C\<close> over storage that holds at least \<open>C\<close>
  bytes, and append \<open>C\<close> bytes; every append succeeds. One more append throws
  \<open>std::out_of_range\<close> and leaves the buffer as it was: same position, same bytes. The
  exception is not a parse error, and the handler of the bounded scanner tells the two
  apart.
\<close>

theorem external_buffer_overflow:
  "length bs = C \<Longrightarrow> C \<le> length mem \<Longrightarrow>
     \<exists>b. external_push_all bs (external_buffer_new mem C) = (None, b)
       \<and> pos b = C \<and> to_string_ext b = bs
       \<and> external_push_back c b = (Some (Out_Of_Range ''external_buffer::push_back''), b)
       \<and> is_out_of_range (Out_Of_Range ''external_buffer::push_back'')
       \<and> \<not> is_out_of_range (Parse_Error n msg)"
proof -
  assume a: "length bs = C" "C \<le> length mem"
  from external_push_all_fits [of "external_buffer_new mem C" bs] a
  obtain b where b: "external_push_all bs (external_buffer_new mem C) = (None, b)"
    "pos b = C" "bsize b = C" "to_string_ext b = bs"
    by (auto simp: external_buffer_new_def to_string_ext_def)
  then have "external_push_back c b = (Some (Out_Of_Range ''external_buffer::push_back''), b)"
    by (simp add: external_push_back_def)
  with b show ?thesis by simp
qed

theorem external_buffer_overflow_witness:
  "length ''abc'' = 3 \<and> 3 \<le> length ''????''
   \<and> (\<exists>b. external_push_all ''abc'' (external_buffer_new ''????'' 3) = (None, b)
       \<and> pos b = 3 \<and> to_string_ext b = ''abc''
       \<and> external_push_back CHR ''d'' b = (Some (Out_Of_Range ''external_buffer::push_back''), b))"
  using external_buffer_overflow [of "''abc''" 3 "''????''" "CHR ''d''" 0 "[]"]
  by simp

section \<open>The scan as a sequence of callback calls\<close>







section \<open>ASCII strings\<close>














section \<open>Whitespace and null\<close>

lemma skip_loop_ws:
  "list_all is_ws ws \<Longrightarrow> upcoming ctx = ws @ x # rest \<Longrightarrow> \<not> is_ws x \<Longrightarrow>
     skip_loop ctx = advance (length ws) ctx"
proof (induction ws arbitrary: ctx)
  case Nil
  then have "\<not> eof ctx" "input ctx ! ofs ctx = x"
    using upcoming_not_eof [of ctx x rest] by simp_all
  with Nil show ?case
    by (subst skip_loop.simps) (simp add: match_whitespace_def match_eol_def is_ws_def)
next
  case (Cons w ws)
  then have ne: "\<not> eof ctx" "input ctx ! ofs ctx = w"
    using upcoming_not_eof [of ctx w "ws @ x # rest"] by simp_all
  from Cons.prems have up: "upcoming (advance 1 ctx) = ws @ x # rest"
    using upcoming_advance1 [of ctx w "ws @ x # rest"] by simp
  from Cons.prems have w: "is_ws w" and ws: "list_all is_ws ws" by simp_all
  from Cons.IH [OF ws up Cons.prems(3)]
  have ih: "skip_loop (advance 1 ctx) = advance (Suc (length ws)) ctx" by simp
  from w ne ih show ?case
    by (subst skip_loop.simps) (auto simp: match_whitespace_def match_eol_def is_ws_def)
qed

lemma skipJsonWhitespace_ws:
  assumes "list_all is_ws ws" "upcoming ctx = ws @ x # rest" "\<not> is_ws x"
  shows "skipJsonWhitespace ctx = advance (length ws) ctx"
proof (cases ws)
  case Nil
  with assms have "\<not> eof ctx" "input ctx ! ofs ctx = x"
    using upcoming_not_eof [of ctx x rest] by simp_all
  with assms Nil skip_loop_ws [OF assms] show ?thesis
    by (simp add: skipJsonWhitespace_def Let_def is_ws_def)
next
  case (Cons w ws')
  with assms have ne: "\<not> eof ctx" "input ctx ! ofs ctx = w" and w: "is_ws w"
    using upcoming_not_eof [of ctx w "ws' @ x # rest"] by simp_all
  from w have "\<not> char_val w > char_val CHR '' ''"
    by (auto simp: is_ws_def char_val_def)
  with ne w skip_loop_ws [OF assms] show ?thesis
    by (auto simp: skipJsonWhitespace_def Let_def is_ws_def)
qed

lemma match_null:
  assumes "list_all is_ws ws" "upcoming ctx = ws @ ''null'' @ rest"
  shows "match_literal ''null'' (skipJsonWhitespace ctx) = (True, advance (length ws + 4) ctx)"
proof -
  from assms have up: "upcoming ctx = ws @ CHR ''n'' # (''ull'' @ rest)" by simp
  have skip: "skipJsonWhitespace ctx = advance (length ws) ctx"
    by (rule skipJsonWhitespace_ws [OF assms(1) up]) (simp add: is_ws_def)
  from upcoming_advance [of ctx ws "''null'' @ rest"] assms
  have "upcoming (advance (length ws) ctx) = ''null'' @ rest" by simp
  then show ?thesis
    by (simp add: skip match_literal_upcoming advance_def)
qed

text \<open>
  C5: when the upcoming input is whitespace (possibly none) followed by the literal
  \<open>null\<close>, \<open>expectJsonArray\<close> and \<open>expectJsonObject\<close> return normally, just after the
  literal, with the visitor's state untouched. This holds for every visitor, also one
  that would throw or never return: the visitor is not called.
\<close>

theorem expect_null_is_empty:
  "list_all is_ws ws \<Longrightarrow> upcoming ctx = ws @ ''null'' @ rest \<Longrightarrow>
     expectJsonArray ctx onEntry st = Some (None, st, advance (length ws + 4) ctx)
     \<and> expectJsonObject ctx onEntry' st' = Some (None, st', advance (length ws + 4) ctx)"
  by (simp add: expectJsonArray_def expectJsonObject_def match_null)

theorem expect_null_is_empty_witness:
  "list_all is_ws [CHR '' '', CHR 0x09, CHR 0x0A, CHR 0x0D]
   \<and> upcoming \<lparr>input = [CHR '' '', CHR 0x09, CHR 0x0A, CHR 0x0D] @ ''null'' @ '', 1'', ofs = 0\<rparr>
       = [CHR '' '', CHR 0x09, CHR 0x0A, CHR 0x0D] @ ''null'' @ '', 1''
   \<and> expectJsonArray \<lparr>input = [CHR '' '', CHR 0x09, CHR 0x0A, CHR 0x0D] @ ''null'' @ '', 1'', ofs = 0\<rparr>
         (\<lambda>i ctx st. None) (0::nat)
       = Some (None, 0, \<lparr>input = [CHR '' '', CHR 0x09, CHR 0x0A, CHR 0x0D] @ ''null'' @ '', 1'', ofs = 8\<rparr>)
   \<and> expectJsonObject \<lparr>input = [CHR '' '', CHR 0x09, CHR 0x0A, CHR 0x0D] @ ''null'' @ '', 1'', ofs = 0\<rparr>
         (\<lambda>key ctx st. Some (Some (Exception ''called''), st, ctx)) (0::nat)
       = Some (None, 0, \<lparr>input = [CHR '' '', CHR 0x09, CHR 0x0A, CHR 0x0D] @ ''null'' @ '', 1'', ofs = 8\<rparr>)"
proof -
  let ?ws = "[CHR '' '', CHR 0x09, CHR 0x0A, CHR 0x0D]"
  let ?ctx = "\<lparr>input = ?ws @ ''null'' @ '', 1'', ofs = 0\<rparr>"
  have ws: "list_all is_ws ?ws" by (simp add: is_ws_def)
  have up: "upcoming ?ctx = ?ws @ ''null'' @ '', 1''" by (simp add: upcoming_def)
  from expect_null_is_empty [OF ws up, of "\<lambda>i ctx st. None" "0::nat"
      "\<lambda>key ctx st. Some (Some (Exception ''called''), st, ctx)" "0::nat"] ws up
  show ?thesis by (simp add: advance_def)
qed

section \<open>Traversal\<close>

text \<open>
  C4: on \<open>{"a": 1, "b": [2, 3]}\<close>, \<open>expectJsonObject\<close> calls its visitor twice: with key
  \<open>a\<close> and the cursor at \<open>1\<close>, then with key \<open>b\<close> and the cursor at \<open>[2, 3]\<close>. The
  \<open>expectJsonArray\<close> that the visitor runs on the second value calls the array visitor
  twice: index 0 with the cursor at \<open>2\<close>, index 1 with the cursor at \<open>3\<close>. The record
  holds these four calls in this order and nothing else, and the traversal ends after
  the closing brace. The same two array calls result when \<open>expectJsonArray\<close> is started at
  the second value directly.
\<close>

theorem object_array_traversal:
  "example_object = [CHR ''{'', CHR 0x22, CHR ''a'', CHR 0x22, CHR '':'', CHR '' '', CHR ''1'',
       CHR '','', CHR '' '', CHR 0x22, CHR ''b'', CHR 0x22, CHR '':'', CHR '' '', CHR ''['',
       CHR ''2'', CHR '','', CHR '' '', CHR ''3'', CHR '']'', CHR ''}'']
   \<and> expectJsonObject \<lparr>input = example_object, ofs = 0\<rparr> object_visit []
       = Some (None,
               [Key ''a'' (''1, '' @ [CHR 0x22] @ ''b'' @ [CHR 0x22] @ '': [2, 3]}''),
                Key ''b'' ''[2, 3]}'',
                Index 0 ''2, 3]}'',
                Index 1 ''3]}''],
               \<lparr>input = example_object, ofs = 21\<rparr>)
   \<and> upcoming \<lparr>input = example_object, ofs = 14\<rparr> = ''[2, 3]}''
   \<and> expectJsonArray \<lparr>input = example_object, ofs = 14\<rparr> array_visit []
       = Some (None, [Index 0 ''2, 3]}'', Index 1 ''3]}''],
               \<lparr>input = example_object, ofs = 20\<rparr>)"
  by code_simp

section \<open>Probing operations\<close>

lemma matchJsonString_restores:
  "matchJsonString ctx str = (False, str', ctx') \<Longrightarrow> ofs ctx' = ofs ctx \<and> str' = str"
  by (auto simp: matchJsonString_def Revert_Token_def revert_def Let_def
           split: prod.splits sum.splits)

text \<open>
  C1, at three inputs. \<open>matchJsonObject\<close> on \<open>{"a" 1}\<close> returns false with the cursor
  at offset 5, after the key and the space; on \<open>{1}\<close> it throws the parse error of
  \<open>expectJsonStringAscii\<close>; \<open>matchJsonNull\<close> on two spaces and \<open>x\<close> returns false with
  the cursor after the spaces. Only \<open>matchJsonString\<close> holds a \<open>Revert_Token\<close> and
  catches exceptions.
\<close>

theorem match_probes_not_restoring:
  "matchJsonObject \<lparr>input = ''{'' @ [CHR 0x22] @ ''a'' @ [CHR 0x22] @ '' 1}'', ofs = 0\<rparr>
       (\<lambda>key ctx st. Some (Inr True, st, ctx)) ()
     = Some (Inr False, (),
             \<lparr>input = ''{'' @ [CHR 0x22] @ ''a'' @ [CHR 0x22] @ '' 1}'', ofs = 5\<rparr>)
   \<and> (\<exists>msg. matchJsonObject \<lparr>input = ''{1}'', ofs = 0\<rparr> (\<lambda>key ctx st. Some (Inr True, st, ctx)) ()
          = Some (Inl (Parse_Error 1 msg), (), \<lparr>input = ''{1}'', ofs = 1\<rparr>))
   \<and> matchJsonNull \<lparr>input = ''  x'', ofs = 0\<rparr> = (False, \<lparr>input = ''  x'', ofs = 2\<rparr>)"
proof -
  have a: "matchJsonObject \<lparr>input = ''{'' @ [CHR 0x22] @ ''a'' @ [CHR 0x22] @ '' 1}'', ofs = 0\<rparr>
       (\<lambda>key ctx st. Some (Inr True, st, ctx)) ()
     = Some (Inr False, (),
             \<lparr>input = ''{'' @ [CHR 0x22] @ ''a'' @ [CHR 0x22] @ '' 1}'', ofs = 5\<rparr>)"
    by code_simp
  have b: "matchJsonObject \<lparr>input = ''{1}'', ofs = 0\<rparr> (\<lambda>key ctx st. Some (Inr True, st, ctx)) ()
          = Some (Inl (Parse_Error 1 (''expected literal '' @ [CHR 0x22])), (),
                  \<lparr>input = ''{1}'', ofs = 1\<rparr>)"
    by code_simp
  have c: "matchJsonNull \<lparr>input = ''  x'', ofs = 0\<rparr> = (False, \<lparr>input = ''  x'', ofs = 2\<rparr>)"
    by code_simp
  from a b c show ?thesis by blast
qed

end
